theory Spec2Isabelle
  imports Main
begin

section \<open>Strings\<close>

text \<open>
  A Go string is modelled by the sequence of its runes (Unicode code points): every
  library function the renderer calls on a string (\<open>strings.Fields\<close>, \<open>strings.TrimSpace\<close>,
  \<open>runewidth.StringWidth\<close>, ...) works rune by rune, and the renderer itself only ever
  compares whole strings and concatenates them.
\<close>

type_synonym rune = nat
type_synonym gostring = "rune list"

definition ascii :: "string \<Rightarrow> gostring" where
  "ascii s = map of_char s"

text \<open>\<open>var nl = []byte("\n")\<close> and \<open>var space = []byte(" ")\<close>; the record field \<open>nl\<close> of the
  line wrapper takes the name \<open>nl\<close>, so the byte slice is called \<open>newline\<close> here.\<close>

definition newline :: gostring where
  "newline = [10]"

definition space :: gostring where
  "space = [32]"

text \<open>\<open>unicode.IsSpace\<close>: the Latin-1 spaces and the code points with the White_Space property.\<close>

definition IsSpace :: "rune \<Rightarrow> bool" where
  "IsSpace r \<longleftrightarrow>
     (9 \<le> r \<and> r \<le> 13) \<or> r = 32 \<or> r = 0x85 \<or> r = 0xA0 \<or> r = 0x1680 \<or>
     (0x2000 \<le> r \<and> r \<le> 0x200A) \<or> r = 0x2028 \<or> r = 0x2029 \<or> r = 0x202F \<or>
     r = 0x205F \<or> r = 0x3000"

text \<open>\<open>strings.TrimSpace\<close>, \<open>strings.TrimRightFunc\<close>, \<open>strings.TrimPrefix\<close>.\<close>

definition TrimRightFunc :: "gostring \<Rightarrow> (rune \<Rightarrow> bool) \<Rightarrow> gostring" where
  "TrimRightFunc s f = rev (dropWhile f (rev s))"

definition TrimSpace :: "gostring \<Rightarrow> gostring" where
  "TrimSpace s = TrimRightFunc (dropWhile IsSpace s) IsSpace"

definition HasPrefix :: "gostring \<Rightarrow> gostring \<Rightarrow> bool" where
  "HasPrefix s p \<longleftrightarrow> take (length p) s = p"

definition TrimPrefix :: "gostring \<Rightarrow> gostring \<Rightarrow> gostring" where
  "TrimPrefix s p = (if HasPrefix s p then drop (length p) s else s)"

text \<open>\<open>strings.Fields\<close>: the maximal runs of non-space runes, in order. \<open>FieldsFrom cur s\<close>
  scans \<open>s\<close> with the field \<open>cur\<close> currently open.\<close>

fun FieldsFrom :: "gostring \<Rightarrow> gostring \<Rightarrow> gostring list" where
  "FieldsFrom cur [] = (if cur = [] then [] else [cur])"
| "FieldsFrom cur (c # cs) =
     (if IsSpace c then (if cur = [] then FieldsFrom [] cs else cur # FieldsFrom [] cs)
      else FieldsFrom (cur @ [c]) cs)"

definition Fields :: "gostring \<Rightarrow> gostring list" where
  "Fields s = FieldsFrom [] s"

text \<open>\<open>strings.Split(s, sep)\<close> for a separator of one rune (the renderer splits on
  \<open>"\n"\<close> only): \<open>k\<close> separators give \<open>k + 1\<close> pieces.\<close>

fun SplitFrom :: "gostring \<Rightarrow> rune \<Rightarrow> gostring \<Rightarrow> gostring list" where
  "SplitFrom cur sep [] = [cur]"
| "SplitFrom cur sep (c # cs) =
     (if c = sep then cur # SplitFrom [] sep cs else SplitFrom (cur @ [c]) sep cs)"

definition Split :: "gostring \<Rightarrow> rune \<Rightarrow> gostring list" where
  "Split s sep = SplitFrom [] sep s"

text \<open>\<open>strings.Repeat\<close> panics on a negative count.\<close>

datatype failure = IndexOutOfRange | NegativeRepeatCount | PrettyTablesNotActive

definition Repeat :: "gostring \<Rightarrow> int \<Rightarrow> failure + gostring" where
  "Repeat s count =
     (if count < 0 then Inl NegativeRepeatCount else Inr (concat (replicate (nat count) s)))"

text \<open>\<open>strings.Replace(s, "\n ", "\n", -1)\<close>: the non-overlapping occurrences of
  \<open>"\n "\<close>, found from left to right in one pass, each become \<open>"\n"\<close>.\<close>

fun Replace_nl_space :: "gostring \<Rightarrow> gostring" where
  "Replace_nl_space [] = []"
| "Replace_nl_space [c] = [c]"
| "Replace_nl_space (c # d # s) =
     (if c = 10 \<and> d = 32 then 10 # Replace_nl_space s else c # Replace_nl_space (d # s))"

text \<open>\<open>newlineRe.ReplaceAllString(s, "\n\n")\<close> with \<open>newlineRe = \n\n+\<close>: every maximal
  run of two or more newlines becomes two newlines.\<close>

function newlineRe_ReplaceAllString :: "gostring \<Rightarrow> gostring" where
  "newlineRe_ReplaceAllString [] = []"
| "newlineRe_ReplaceAllString [c] = [c]"
| "newlineRe_ReplaceAllString (c # d # s) =
     (if c = 10 \<and> d = 10 then 10 # 10 # newlineRe_ReplaceAllString (dropWhile (\<lambda>x. x = 10) s)
      else c # newlineRe_ReplaceAllString (d # s))"
  by pat_completeness auto
termination
  by (relation "measure length") (auto simp: less_Suc_eq_le intro: le_trans [OF length_dropWhile_le])

subsection \<open>Display width\<close>

text \<open>
  Modelled from the spec: \<open>runewidth.StringWidth\<close> belongs to the package
  \<open>github.com/mattn/go-runewidth\<close>, which is not part of the repository. The spec fixes
  what it computes: East-Asian wide characters count as 2 columns, all others as 1. The
  wide ranges are those of the East Asian Width classes W and F.
\<close>

definition IsWide :: "rune \<Rightarrow> bool" where
  "IsWide r \<longleftrightarrow>
     (0x1100 \<le> r \<and> r \<le> 0x115F) \<or> (0x2E80 \<le> r \<and> r \<le> 0x303E) \<or>
     (0x3041 \<le> r \<and> r \<le> 0x33FF) \<or> (0x3400 \<le> r \<and> r \<le> 0x4DBF) \<or>
     (0x4E00 \<le> r \<and> r \<le> 0x9FFF) \<or> (0xA000 \<le> r \<and> r \<le> 0xA4CF) \<or>
     (0xAC00 \<le> r \<and> r \<le> 0xD7A3) \<or> (0xF900 \<le> r \<and> r \<le> 0xFAFF) \<or>
     (0xFE30 \<le> r \<and> r \<le> 0xFE4F) \<or> (0xFF00 \<le> r \<and> r \<le> 0xFF60) \<or>
     (0xFFE0 \<le> r \<and> r \<le> 0xFFE6) \<or> (0x20000 \<le> r \<and> r \<le> 0x3FFFD)"

definition RuneWidth :: "rune \<Rightarrow> int" where
  "RuneWidth r = (if IsWide r then 2 else 1)"

definition StringWidth :: "gostring \<Rightarrow> int" where
  "StringWidth s = sum_list (map RuneWidth s)"

section \<open>The line wrapper\<close>

text \<open>\<open>out\<close> is the \<open>io.Writer\<close> the wrapper writes to; the field holds what has been
  written to it.\<close>

record lineWrapper =
  out :: gostring
  width :: int
  n :: int
  nl :: int
  pendSpace :: int
  printed :: bool

definition flushN :: "int \<Rightarrow> lineWrapper \<Rightarrow> lineWrapper" where
  "flushN k l =
     (if n l = 0 \<and> nl l \<ge> k then l
      else let k' = k - nl l in
        if k' < 1 then l
        else l\<lparr>out := out l @ (if k' = 1 then newline else concat (replicate (nat k') newline)),
               pendSpace := 0, n := 0, nl := nl l + k'\<rparr>)"

definition flush :: "lineWrapper \<Rightarrow> lineWrapper" where
  "flush l = flushN 1 l"

text \<open>The body of the loop of \<open>write\<close>, for one field \<open>f\<close>.\<close>

definition writeField :: "gostring \<Rightarrow> lineWrapper \<Rightarrow> lineWrapper" where
  "writeField f l =
     (let w = StringWidth f;
          l1 = (if n l > 0 \<and> n l + pendSpace l + w > width l
                then l\<lparr>out := out l @ newline, n := 0, pendSpace := 0\<rparr> else l);
          l2 = l1\<lparr>out := out l1 @ take (nat (pendSpace l1)) space\<rparr>;
          l3 = l2\<lparr>out := out l2 @ f\<rparr>
      in l3\<lparr>n := n l3 + pendSpace l3 + w, pendSpace := 1\<rparr>)"

fun writeFields :: "gostring list \<Rightarrow> lineWrapper \<Rightarrow> lineWrapper" where
  "writeFields [] l = l"
| "writeFields (f # fs) l = writeFields fs (writeField f l)"

text \<open>\<open>lineWrapper.write\<close> (the name \<open>write\<close> is an Isar command, hence the prime).\<close>

definition write' :: "gostring \<Rightarrow> lineWrapper \<Rightarrow> lineWrapper" where
  "write' text l =
     (let l1 = (if n l = 0 \<and> printed l then flush l else l);
          l2 = l1\<lparr>printed := True, nl := 0\<rparr>
      in writeFields (Fields text) l2)"

section \<open>Nodes, options and the render context\<close>

text \<open>\<open>html.Node\<close> of \<open>golang.org/x/net/html\<close>: the node type, the atom of the tag, the
  data, the attributes and the children from \<open>FirstChild\<close> along \<open>NextSibling\<close>.
  \<open>Atom_Other\<close> stands for every atom the renderer does not name (0 included).\<close>

datatype NodeType =
  ErrorNode | TextNode | DocumentNode | ElementNode | CommentNode | DoctypeNode | RawNode

datatype Atom =
  Atom_Br | Atom_H1 | Atom_H2 | Atom_H3 | Atom_Blockquote | Atom_Div | Atom_Li | Atom_B
| Atom_Strong | Atom_A | Atom_Img | Atom_P | Atom_Ul | Atom_Table | Atom_Tfoot | Atom_Th
| Atom_Tr | Atom_Td | Atom_Pre | Atom_Style | Atom_Script | Atom_Head | Atom_Other

datatype Attribute = Attribute (Namespace: gostring) (Key: gostring) (Val: gostring)

datatype Node =
  Node (Type: NodeType) (DataAtom: Atom) (Data: gostring) (Attr: "Attribute list")
       (Children: "Node list")

record Border =
  Left :: bool
  Right :: bool
  Top :: bool
  Bottom :: bool

record PrettyTablesOptions =
  AutoFormatHeader :: bool
  AutoWrapText :: bool
  ReflowDuringAutoWrap :: bool
  ColWidth :: int
  ColumnSeparator :: gostring
  RowSeparator :: gostring
  CenterSeparator :: gostring
  HeaderAlignment :: int
  FooterAlignment :: int
  Alignment :: int
  ColumnAlignment :: "int list"
  NewLine :: gostring
  HeaderLine :: bool
  RowLine :: bool
  AutoMergeCells :: bool
  Borders :: Border

record Options =
  PrettyTables :: bool
  PrettyTablesOptions :: "PrettyTablesOptions option"
  OmitLinks :: bool
  TextOnly :: bool

text \<open>The zero value of \<open>Options\<close> (\<open>var options Options\<close>).\<close>

definition zeroOptions :: Options where
  "zeroOptions =
     \<lparr>PrettyTables = False, PrettyTablesOptions = None, OmitLinks = False, TextOnly = False\<rparr>"

record tableTraverseContext =
  header :: "gostring list"
  body :: "gostring list list"
  footer :: "gostring list"
  tmpRow :: int
  isInFooter :: bool

definition zeroTableCtx :: tableTraverseContext where
  "zeroTableCtx = \<lparr>header = [], body = [], footer = [], tmpRow = 0, isInFooter = False\<rparr>"

text \<open>\<open>tableTraverseContext.init\<close>.\<close>

definition init :: "tableTraverseContext \<Rightarrow> tableTraverseContext" where
  "init t = t\<lparr>body := [], header := [], footer := [], isInFooter := False, tmpRow := 0\<rparr>"

text \<open>
  \<open>textifyTraverseContext\<close>. The wrapper's writer is \<open>&ctx.buf\<close>, so the buffer of the
  context and the writer of its wrapper are one object: the model keeps it in the field
  \<open>out\<close> of the wrapper and \<open>buf\<close> reads it there.
\<close>

record textifyTraverseContext =
  prefix :: gostring
  tableCtx :: tableTraverseContext
  options :: Options
  endsWithSpace :: bool
  justClosedDiv :: bool
  blockquoteLevel :: int
  tableLevel :: int
  lineWrapper :: lineWrapper
  isPre :: bool

definition buf :: "textifyTraverseContext \<Rightarrow> gostring" where
  "buf ctx = out (lineWrapper ctx)"

text \<open>\<open>ctx.buf.WriteString(data)\<close>.\<close>

definition buf_WriteString :: "gostring \<Rightarrow> textifyTraverseContext \<Rightarrow> textifyTraverseContext" where
  "buf_WriteString data ctx =
     ctx\<lparr>lineWrapper := (lineWrapper ctx)\<lparr>out := out (lineWrapper ctx) @ data\<rparr>\<rparr>"

text \<open>The context \<open>FromHTMLNode\<close> and \<open>sub\<close> build: every field but the options and the
  width has its zero value.\<close>

definition newContext :: "Options \<Rightarrow> int \<Rightarrow> textifyTraverseContext" where
  "newContext opts w =
     \<lparr>prefix = [], tableCtx = zeroTableCtx, options = opts, endsWithSpace = False,
      justClosedDiv = False, blockquoteLevel = 0, tableLevel = 0,
      lineWrapper = \<lparr>out = [], width = w, n = 0, nl = 0, pendSpace = 0, printed = False\<rparr>,
      isPre = False\<rparr>"

definition sub :: "textifyTraverseContext \<Rightarrow> textifyTraverseContext" where
  "sub ctx = newContext (options ctx) (width (lineWrapper ctx))"

text \<open>\<open>emit\<close> returns \<open>nil\<close> on each of its paths, so the model returns the context alone.\<close>

definition emit :: "gostring \<Rightarrow> textifyTraverseContext \<Rightarrow> textifyTraverseContext" where
  "emit data ctx =
     (if tableLevel ctx > 0
      then buf_WriteString data (ctx\<lparr>lineWrapper := flush (lineWrapper ctx)\<rparr>)
      else if data = [] then ctx
      else if data = newline then ctx\<lparr>lineWrapper := flush (lineWrapper ctx)\<rparr>
      else if data = newline @ newline then ctx\<lparr>lineWrapper := flushN 2 (lineWrapper ctx)\<rparr>
      else ctx\<lparr>lineWrapper := write' data (lineWrapper ctx)\<rparr>)"

definition normalizeHrefLink :: "gostring \<Rightarrow> gostring" where
  "normalizeHrefLink link = TrimPrefix (TrimSpace link) (ascii ''mailto:'')"

fun getAttrValFrom :: "Attribute list \<Rightarrow> gostring \<Rightarrow> gostring" where
  "getAttrValFrom [] attrName = []"
| "getAttrValFrom (attr # attrs) attrName =
     (if Key attr = attrName then Val attr else getAttrValFrom attrs attrName)"

definition getAttrVal :: "Node \<Rightarrow> gostring \<Rightarrow> gostring" where
  "getAttrVal node attrName = getAttrValFrom (Attr node) attrName"

text \<open>The loop of \<open>handleElement\<close> that measures a rendered heading: the largest display
  width of a line of \<open>str\<close>, trailing white space trimmed.\<close>

definition dividerLenOf :: "gostring \<Rightarrow> int" where
  "dividerLenOf str =
     foldl (\<lambda>dividerLen line.
              let lineLen = StringWidth (TrimRightFunc line IsSpace)
              in if lineLen > dividerLen then lineLen else dividerLen)
           0 (Split str 10)"

text \<open>A panic or a returned error ends the caller at once.\<close>

definition andThen :: "failure + 'a \<Rightarrow> ('a \<Rightarrow> failure + 'b) \<Rightarrow> failure + 'b" where
  "andThen m f = (case m of Inl e \<Rightarrow> Inl e | Inr x \<Rightarrow> f x)"

section \<open>The traversal\<close>

text \<open>
  \<open>tw\<close> stands for the table writer of \<open>github.com/olekukonko/tablewriter\<close>, which is not
  part of the repository: \<open>tw o h b f\<close> is the text \<open>table.Render()\<close> leaves in its buffer
  for the settings \<open>o\<close>, the header \<open>h\<close>, the rows \<open>b\<close> and the footer \<open>f\<close>. Every function
  of the traversal takes it as its first argument.

  Each case of the \<open>switch\<close> of \<open>handleElement\<close> and of \<open>handleTableElement\<close> is a
  definition of its own, named after the case. Where the case calls
  \<open>ctx.traverseChildren(node)\<close> the definition takes that call as its argument
  \<open>traverseChildren_node\<close>, and where it calls \<open>ctx.renderEachChild(node)\<close> it takes the
  result \<open>res\<close> of the call; \<open>handleElement\<close> and \<open>handleTableElement\<close> below pass them.
\<close>

type_synonym tablewriter =
  "PrettyTablesOptions option \<Rightarrow> gostring list \<Rightarrow> gostring list list \<Rightarrow> gostring list \<Rightarrow> gostring"

type_synonym traversal = "textifyTraverseContext \<Rightarrow> failure + textifyTraverseContext"

text \<open>\<open>case atom.H1, atom.H2, atom.H3\<close>.\<close>

definition case_H1_H2_H3 :: "Atom \<Rightarrow> traversal \<Rightarrow> traversal" where
  "case_H1_H2_H3 a traverseChildren_node ctx =
     andThen (traverseChildren_node (sub ctx)) (\<lambda>subCtx.
       let str = buf subCtx in
       if TextOnly (options ctx) then Inr (emit (str @ newline @ newline) ctx)
       else
         andThen (Repeat (ascii (if a = Atom_H1 then ''*'' else ''-'')) (dividerLenOf str))
           (\<lambda>divider.
             let ctx = emit (newline @ newline) ctx;
                 ctx = (if a = Atom_H1 then emit newline (emit divider ctx) else ctx);
                 ctx = emit str ctx;
                 ctx = emit newline ctx;
                 ctx = emit divider ctx
             in Inr (emit (newline @ newline) ctx)))"

text \<open>\<open>case atom.Blockquote\<close>: the statements before the call of \<open>traverseChildren\<close>, and
  those after it.\<close>

definition blockquote_enter :: traversal where
  "blockquote_enter ctx =
     (let ctx = ctx\<lparr>blockquoteLevel := blockquoteLevel ctx + 1\<rparr> in
      andThen (if \<not> TextOnly (options ctx)
               then andThen (Repeat (ascii ''>'') (blockquoteLevel ctx))
                      (\<lambda>r. Inr (ctx\<lparr>prefix := r @ space\<rparr>))
               else Inr ctx) (\<lambda>ctx.
      let ctx = emit newline ctx
      in Inr (if blockquoteLevel ctx = 1 then emit newline ctx else ctx)))"

definition blockquote_leave :: traversal where
  "blockquote_leave ctx =
     (let ctx = ctx\<lparr>blockquoteLevel := blockquoteLevel ctx - 1\<rparr> in
      andThen (if \<not> TextOnly (options ctx)
               then andThen (Repeat (ascii ''>'') (blockquoteLevel ctx))
                      (\<lambda>r. Inr (ctx\<lparr>prefix := r\<rparr>))
               else Inr ctx) (\<lambda>ctx.
      let ctx = (if blockquoteLevel ctx > 0 then ctx\<lparr>prefix := prefix ctx @ space\<rparr> else ctx)
      in Inr (emit (newline @ newline) ctx)))"

definition case_Blockquote :: "traversal \<Rightarrow> traversal" where
  "case_Blockquote traverseChildren_node ctx =
     andThen (blockquote_enter ctx) (\<lambda>ctx.
     andThen (traverseChildren_node ctx) blockquote_leave)"

text \<open>\<open>case atom.Div\<close>.\<close>

definition case_Div :: "traversal \<Rightarrow> traversal" where
  "case_Div traverseChildren_node ctx =
     (let ctx = ctx\<lparr>lineWrapper := flush (lineWrapper ctx)\<rparr> in
      andThen (traverseChildren_node ctx) (\<lambda>ctx.
      let ctx = (if \<not> justClosedDiv ctx then emit newline ctx else ctx)
      in Inr (ctx\<lparr>justClosedDiv := True\<rparr>)))"

text \<open>\<open>case atom.Li\<close>.\<close>

definition case_Li :: "traversal \<Rightarrow> traversal" where
  "case_Li traverseChildren_node ctx =
     (let ctx = (if \<not> TextOnly (options ctx) then emit (ascii ''- '') ctx else ctx) in
      andThen (traverseChildren_node ctx) (\<lambda>ctx. Inr (emit newline ctx)))"

text \<open>\<open>case atom.B, atom.Strong\<close>.\<close>

definition case_B_Strong :: "traversal \<Rightarrow> traversal" where
  "case_B_Strong traverseChildren_node ctx =
     andThen (traverseChildren_node ((sub ctx)\<lparr>endsWithSpace := True\<rparr>)) (\<lambda>subCtx.
       let str = buf subCtx in
       if TextOnly (options ctx) then Inr (emit str ctx)
       else Inr (emit (ascii ''*'' @ str @ ascii ''*'') ctx))"

text \<open>\<open>case atom.A\<close>.\<close>

definition case_A :: "Node \<Rightarrow> traversal \<Rightarrow> traversal" where
  "case_A node traverseChildren_node ctx =
     (let linkText = (case Children node of
                        [c] \<Rightarrow> if Type c = TextNode then Data c else []
                      | _ \<Rightarrow> []) in
      andThen (case Children node of
                 [img] \<Rightarrow>
                   if DataAtom img = Atom_Img then
                     (let altText = getAttrVal img (ascii ''alt'')
                      in if altText \<noteq> [] then Inr (emit altText ctx) else Inr ctx)
                   else traverseChildren_node ctx
               | _ \<Rightarrow> traverseChildren_node ctx) (\<lambda>ctx.
      let attrVal = getAttrVal node (ascii ''href'');
          hrefLink =
            (if attrVal \<noteq> [] then
               (let attrVal = normalizeHrefLink attrVal in
                if (\<not> OmitLinks (options ctx) \<and> attrVal \<noteq> [] \<and> linkText \<noteq> attrVal)
                   \<or> \<not> TextOnly (options ctx)
                then ascii ''('' @ attrVal @ ascii '')'' else [])
             else [])
      in Inr (emit hrefLink ctx)))"

text \<open>\<open>paragraphHandler\<close>.\<close>

definition paragraphHandler :: "traversal \<Rightarrow> traversal" where
  "paragraphHandler traverseChildren_node ctx =
     andThen (traverseChildren_node (emit (newline @ newline) ctx))
       (\<lambda>ctx. Inr (emit (newline @ newline) ctx))"

text \<open>\<open>case atom.Pre\<close>.\<close>

definition case_Pre :: "traversal \<Rightarrow> traversal" where
  "case_Pre traverseChildren_node ctx =
     andThen (traverseChildren_node (ctx\<lparr>isPre := True\<rparr>)) (\<lambda>ctx. Inr (ctx\<lparr>isPre := False\<rparr>))"

text \<open>The cases of \<open>handleTableElement\<close>.\<close>

definition table_Table :: "tablewriter \<Rightarrow> traversal \<Rightarrow> traversal" where
  "table_Table tw traverseChildren_node ctx =
     (let ctx = emit (newline @ newline) ctx;
          ctx = ctx\<lparr>tableCtx := init (tableCtx ctx)\<rparr> in
      andThen (traverseChildren_node ctx) (\<lambda>ctx.
      let rendered = tw (PrettyTablesOptions (options ctx)) (header (tableCtx ctx))
                        (body (tableCtx ctx)) (footer (tableCtx ctx))
      in Inr (emit (newline @ newline) (emit rendered ctx))))"

definition table_Tfoot :: "traversal \<Rightarrow> traversal" where
  "table_Tfoot traverseChildren_node ctx =
     andThen (traverseChildren_node (ctx\<lparr>tableCtx := (tableCtx ctx)\<lparr>isInFooter := True\<rparr>\<rparr>))
       (\<lambda>ctx. Inr (ctx\<lparr>tableCtx := (tableCtx ctx)\<lparr>isInFooter := False\<rparr>\<rparr>))"

definition table_Tr :: "traversal \<Rightarrow> traversal" where
  "table_Tr traverseChildren_node ctx =
     andThen (traverseChildren_node
                (ctx\<lparr>tableCtx := (tableCtx ctx)\<lparr>body := body (tableCtx ctx) @ [[]]\<rparr>\<rparr>))
       (\<lambda>ctx. Inr (ctx\<lparr>tableCtx := (tableCtx ctx)\<lparr>tmpRow := tmpRow (tableCtx ctx) + 1\<rparr>\<rparr>))"

definition table_Th :: "failure + gostring \<Rightarrow> traversal" where
  "table_Th renderEachChild_node ctx =
     andThen renderEachChild_node (\<lambda>res.
       Inr (ctx\<lparr>tableCtx := (tableCtx ctx)\<lparr>header := header (tableCtx ctx) @ [res]\<rparr>\<rparr>))"

definition table_Td :: "failure + gostring \<Rightarrow> traversal" where
  "table_Td renderEachChild_node ctx =
     andThen renderEachChild_node (\<lambda>res.
       let t = tableCtx ctx in
       if isInFooter t then Inr (ctx\<lparr>tableCtx := t\<lparr>footer := footer t @ [res]\<rparr>\<rparr>)
       else if 0 \<le> tmpRow t \<and> tmpRow t < int (length (body t))
       then Inr (ctx\<lparr>tableCtx :=
                   t\<lparr>body := (body t)[nat (tmpRow t) := body t ! nat (tmpRow t) @ [res]]\<rparr>\<rparr>)
       else Inl IndexOutOfRange)"

text \<open>The final pass of \<open>FromHTMLNode\<close> over the buffer.\<close>

definition finalText :: "gostring \<Rightarrow> gostring" where
  "finalText b = TrimSpace (newlineRe_ReplaceAllString (Replace_nl_space b))"

function traverse :: "tablewriter \<Rightarrow> Node \<Rightarrow> traversal"
and traverseChildren :: "tablewriter \<Rightarrow> Node list \<Rightarrow> traversal"
and handleElement :: "tablewriter \<Rightarrow> Node \<Rightarrow> traversal"
and handleTableElement :: "tablewriter \<Rightarrow> Node \<Rightarrow> traversal"
and renderEachChild :: "tablewriter \<Rightarrow> textifyTraverseContext \<Rightarrow> gostring \<Rightarrow> Node list \<Rightarrow> failure + gostring"
and FromHTMLNode :: "tablewriter \<Rightarrow> Node \<Rightarrow> Options list \<Rightarrow> failure + gostring"
where
  "traverse tw (Node ty a d attrs cs) ctx =
     (if ty = TextNode then Inr (emit (if isPre ctx then d else TrimSpace d) ctx)
      else if ty = ElementNode then handleElement tw (Node ty a d attrs cs) ctx
      else traverseChildren tw cs ctx)"

| "traverseChildren tw [] ctx = Inr ctx"
| "traverseChildren tw (c # cs) ctx =
     andThen (traverse tw c ctx) (\<lambda>ctx. traverseChildren tw cs ctx)"

| "handleElement tw (Node ty a d attrs cs) ctx0 =
     (let ctx = ctx0\<lparr>justClosedDiv := False\<rparr> in
      if a = Atom_Br then Inr (emit (newline @ newline) ctx)
      else if a = Atom_H1 \<or> a = Atom_H2 \<or> a = Atom_H3 then
        case_H1_H2_H3 a (traverseChildren tw cs) ctx
      else if a = Atom_Blockquote then case_Blockquote (traverseChildren tw cs) ctx
      else if a = Atom_Div then case_Div (traverseChildren tw cs) ctx
      else if a = Atom_Li then case_Li (traverseChildren tw cs) ctx
      else if a = Atom_B \<or> a = Atom_Strong then case_B_Strong (traverseChildren tw cs) ctx
      else if a = Atom_A then case_A (Node ty a d attrs cs) (traverseChildren tw cs) ctx
      else if a = Atom_P \<or> a = Atom_Ul then paragraphHandler (traverseChildren tw cs) ctx
      else if a = Atom_Table \<or> a = Atom_Tfoot \<or> a = Atom_Th \<or> a = Atom_Tr \<or> a = Atom_Td then
        (let ctx = (if a = Atom_Table then ctx\<lparr>tableLevel := tableLevel ctx + 1\<rparr> else ctx);
             res = (if PrettyTables (options ctx) then handleTableElement tw (Node ty a d attrs cs) ctx
                    else if a = Atom_Table then paragraphHandler (traverseChildren tw cs) ctx
                    else (traverseChildren tw cs) ctx)
         in if a = Atom_Table
            then andThen res (\<lambda>ctx. Inr (ctx\<lparr>tableLevel := tableLevel ctx - 1\<rparr>))
            else res)
      else if a = Atom_Pre then case_Pre (traverseChildren tw cs) ctx
      else if a = Atom_Style \<or> a = Atom_Script \<or> a = Atom_Head then Inr ctx
      else (traverseChildren tw cs) ctx)"

| "handleTableElement tw (Node ty a d attrs cs) ctx =
     (if \<not> PrettyTables (options ctx) then Inl PrettyTablesNotActive
      else if a = Atom_Table then table_Table tw (traverseChildren tw cs) ctx
      else if a = Atom_Tfoot then table_Tfoot (traverseChildren tw cs) ctx
      else if a = Atom_Tr then table_Tr (traverseChildren tw cs) ctx
      else if a = Atom_Th then table_Th (renderEachChild tw ctx [] cs) ctx
      else if a = Atom_Td then table_Td (renderEachChild tw ctx [] cs) ctx
      else Inr ctx)"

| "renderEachChild tw ctx b [] = Inr b"
| "renderEachChild tw ctx b (c # cs) =
     andThen (FromHTMLNode tw c [options ctx]) (\<lambda>s.
       renderEachChild tw ctx (b @ s @ (if cs \<noteq> [] then [10] else [])) cs)"

| "FromHTMLNode tw doc os =
     (let opts = (case os of [] \<Rightarrow> zeroOptions | x # _ \<Rightarrow> x);
          ctx = newContext opts 78
      in andThen (traverse tw doc ctx) (\<lambda>ctx. Inr (finalText (buf ctx))))"

  by pat_completeness auto
termination
  by (relation "measure (\<lambda>x. case x of
         Inl (Inl (tw, node, ctx)) \<Rightarrow> 5 * size node + 3
       | Inl (Inr (Inl (tw, cs, ctx))) \<Rightarrow> 5 * size_list size cs
       | Inl (Inr (Inr (tw, node, ctx))) \<Rightarrow> 5 * size node + 2
       | Inr (Inl (tw, node, ctx)) \<Rightarrow> 5 * size node + 1
       | Inr (Inr (Inl (tw, ctx, b, cs))) \<Rightarrow> 5 * size_list size cs
       | Inr (Inr (Inr (tw, node, os))) \<Rightarrow> 5 * size node + 4)")
     simp_all

text \<open>The equations of the four functions that take a node are used where they are named
  only.\<close>

declare traverse.simps [simp del] handleElement.simps [simp del]
  handleTableElement.simps [simp del] FromHTMLNode.simps [simp del]


section \<open>Notions the properties are stated with\<close>

text \<open>\<open>strings.Contains\<close>.\<close>

fun Contains :: "gostring \<Rightarrow> gostring \<Rightarrow> bool" where
  "Contains [] substr = (substr = [])"
| "Contains (c # s) substr = (HasPrefix (c # s) substr \<or> Contains s substr)"

text \<open>
  The states of a line wrapper that calls of \<open>write\<close>, \<open>flush\<close> and \<open>flushN\<close> reach from
  a new one: one space is pending exactly when the current line holds a word, and no
  newline is counted as flushed while it does.
\<close>

definition lw_inv :: "lineWrapper \<Rightarrow> bool" where
  "lw_inv l \<longleftrightarrow>
     0 \<le> n l \<and> 0 \<le> nl l \<and> pendSpace l = (if 0 < n l then 1 else 0) \<and> (n l = 0 \<or> nl l = 0)"

text \<open>
  The layout of words as the spec words it: words are joined by one space, and a word
  goes to a new line when the current line is not empty and its column count \<open>col\<close>, plus
  the pending space, plus the display width of the word exceeds the width \<open>W\<close>.
\<close>

fun wrapWords :: "int \<Rightarrow> int \<Rightarrow> gostring list \<Rightarrow> gostring" where
  "wrapWords W col [] = []"
| "wrapWords W col (f # fs) =
     (if col = 0 then f @ wrapWords W (StringWidth f) fs
      else if col + 1 + StringWidth f > W then newline @ f @ wrapWords W (StringWidth f) fs
      else space @ f @ wrapWords W (col + 1 + StringWidth f) fs)"

text \<open>A sequence of calls of the methods of a line wrapper.\<close>

datatype lineWrapperCall = Call_write gostring | Call_flush | Call_flushN int

fun call :: "lineWrapperCall \<Rightarrow> lineWrapper \<Rightarrow> lineWrapper" where
  "call (Call_write text) l = write' text l"
| "call Call_flush l = flush l"
| "call (Call_flushN k) l = flushN k l"

fun calls :: "lineWrapperCall list \<Rightarrow> lineWrapper \<Rightarrow> lineWrapper" where
  "calls [] l = l"
| "calls (c # cs) l = calls cs (call c l)"

text \<open>A line is within the width \<open>W\<close>, or it is one word and nothing else.\<close>

definition lineOK :: "int \<Rightarrow> gostring \<Rightarrow> bool" where
  "lineOK W line \<longleftrightarrow> StringWidth line \<le> W \<or> Fields line = [line]"

text \<open>A word: not empty and free of white space, as the fields of \<open>strings.Fields\<close> are.\<close>

definition isWord :: "gostring \<Rightarrow> bool" where
  "isWord f \<longleftrightarrow> f \<noteq> [] \<and> \<not> list_ex IsSpace f"

text \<open>What holds of the text a line wrapper has written: the column count \<open>n\<close> is the
  display width of the line being written, and every line is within the width or is one
  word.\<close>

definition lw_lines_inv :: "lineWrapper \<Rightarrow> bool" where
  "lw_lines_inv l \<longleftrightarrow>
     lw_inv l \<and> 0 \<le> width l \<and> n l = StringWidth (last (Split (out l) 10)) \<and>
     list_all (lineOK (width l)) (Split (out l) 10)"

text \<open>
  What a traversal that returns leaves as it found it: the options, the width of the
  wrapper and the two nesting levels; and the wrapper is in a state as above if it was
  before.
\<close>

definition preserved :: "textifyTraverseContext \<Rightarrow> textifyTraverseContext \<Rightarrow> bool" where
  "preserved c c' \<longleftrightarrow>
     options c' = options c \<and> width (lineWrapper c') = width (lineWrapper c) \<and>
     blockquoteLevel c' = blockquoteLevel c \<and> tableLevel c' = tableLevel c \<and>
     (lw_inv (lineWrapper c') \<or> \<not> lw_inv (lineWrapper c))"

definition keeps :: "traversal \<Rightarrow> bool" where
  "keeps t \<longleftrightarrow> (\<forall>c c'. t c = Inr c' \<longrightarrow> preserved c c')"

section \<open>Evaluating the model\<close>

lemma andThen_Inr [simp]: "andThen (Inr x) f = f x"
  by (simp add: andThen_def)

lemma andThen_Inl [simp]: "andThen (Inl e) f = Inl e"
  by (simp add: andThen_def)

text \<open>With this congruence rule the simplifier evaluates the first argument of \<open>andThen\<close>
  and leaves the continuation alone until its argument is known.\<close>

lemma andThen_weak_cong: "m = m' \<Longrightarrow> andThen m f = andThen m' f"
  by simp

lemma replicate_2: "replicate 2 x = [x, x]"
  by (simp add: numeral_2_eq_2)

lemmas eval_defs =
  replicate_2
  traverse.simps handleElement.simps handleTableElement.simps FromHTMLNode.simps
  case_H1_H2_H3_def case_Blockquote_def blockquote_enter_def blockquote_leave_def case_Div_def case_Li_def case_B_Strong_def case_A_def
  paragraphHandler_def case_Pre_def table_Table_def table_Tfoot_def table_Tr_def table_Th_def
  table_Td_def finalText_def emit_def buf_def buf_WriteString_def newContext_def sub_def
  zeroOptions_def zeroTableCtx_def init_def flush_def flushN_def write'_def writeField_def
  Fields_def Split_def TrimSpace_def TrimRightFunc_def TrimPrefix_def HasPrefix_def
  normalizeHrefLink_def getAttrVal_def dividerLenOf_def Repeat_def StringWidth_def
  RuneWidth_def IsWide_def IsSpace_def newline_def space_def ascii_def Let_def

section \<open>Links whose text is their target\<close>

text \<open>
  Claim C1. An anchor whose only child is the text \<open>X\<close> and whose \<open>href\<close> normalises to
  \<open>X\<close> should render as \<open>X\<close> alone under the default options. The condition in
  \<open>case atom.A\<close> ends in \<open>|| !ctx.options.TextOnly\<close>, which holds under the default
  options whatever the link text is: \<open><a href="x">x</a>\<close> renders as \<open>x (x)\<close>.
\<close>

theorem C1_same_text_link_prints_href:
  "FromHTMLNode tw
     (Node ElementNode Atom_A (ascii ''a'') [Attribute [] (ascii ''href'') (ascii ''x'')]
        [Node TextNode Atom_Other (ascii ''x'') [] []])
     [] = Inr (ascii ''x (x)'')"
  by (simp add: eval_defs cong: andThen_weak_cong)

section \<open>A cell outside of a row\<close>

text \<open>
  Claim C2. With pretty tables on, a \<open>td\<close> met before any \<open>tr\<close> should be dropped without a
  panic. \<open>case atom.Td\<close> indexes \<open>body[tmpRow]\<close> with no row in \<open>body\<close>: rendering
  \<open><table><td>x</td></table>\<close> ends in the run-time panic "index out of range".
\<close>

theorem C2_td_before_tr_panics:
  "FromHTMLNode tw
     (Node ElementNode Atom_Table (ascii ''table'') []
        [Node ElementNode Atom_Td (ascii ''td'') [] [Node TextNode Atom_Other (ascii ''x'') [] []]])
     [zeroOptions\<lparr>PrettyTables := True\<rparr>] = Inl IndexOutOfRange"
  by (simp add: eval_defs cong: andThen_weak_cong)

section \<open>Preformatted text\<close>

text \<open>
  Claim C3. Text inside \<open>pre\<close> should reach the buffer unmodified, and the flag \<open>isPre\<close>
  should get its prior value back afterwards. Outside of a table \<open>emit\<close> hands the
  untrimmed text to \<open>lineWrapper.write\<close>, which splits it with \<open>strings.Fields\<close>: the text
  \<open>"a\n  b"\<close> of \<open><pre>\<close> is in the buffer as \<open>"a b"\<close>. And \<open>case atom.Pre\<close> ends with
  \<open>ctx.isPre = false\<close>: a \<open>pre\<close> entered with the flag set leaves it cleared.
\<close>

theorem C3_pre_text_is_reflowed:
  "map_sum id buf
     (traverse tw
        (Node ElementNode Atom_Pre (ascii ''pre'') []
           [Node TextNode Atom_Other [97, 10, 32, 32, 98] [] []])
        (newContext zeroOptions 78)) = Inr [97, 32, 98]
   \<and> map_sum id isPre
     (traverse tw
        (Node ElementNode Atom_Pre (ascii ''pre'') []
           [Node TextNode Atom_Other [97, 10, 32, 32, 98] [] []])
        ((newContext zeroOptions 78)\<lparr>isPre := True\<rparr>)) = Inr False"
  by (simp add: eval_defs cong: andThen_weak_cong)

section \<open>Facts about strings\<close>

lemma StringWidth_Nil [simp]: "StringWidth [] = 0"
  by (simp add: StringWidth_def)

lemma StringWidth_Cons: "StringWidth (r # s) = RuneWidth r + StringWidth s"
  by (simp add: StringWidth_def)

lemma StringWidth_append [simp]: "StringWidth (a @ b) = StringWidth a + StringWidth b"
  by (simp add: StringWidth_def)

lemma RuneWidth_pos: "1 \<le> RuneWidth r"
  by (simp add: RuneWidth_def)

lemma StringWidth_ge_length: "int (length s) \<le> StringWidth s"
proof (induction s)
  case Nil
  show ?case by simp
next
  case (Cons r s)
  have "1 \<le> RuneWidth r" by (rule RuneWidth_pos)
  with Cons show ?case by (simp add: StringWidth_Cons)
qed

lemma StringWidth_nonneg: "0 \<le> StringWidth s"
  using StringWidth_ge_length [of s] by linarith

lemma StringWidth_pos: "s \<noteq> [] \<Longrightarrow> 0 < StringWidth s"
  using StringWidth_ge_length [of s] by (cases s) auto

lemma StringWidth_zero: "StringWidth s = 0 \<Longrightarrow> s = []"
  using StringWidth_pos [of s] by auto

lemma StringWidth_space [simp]: "StringWidth space = 1"
  by (simp add: StringWidth_def space_def RuneWidth_def IsWide_def)

lemma IsSpace_10 [simp]: "IsSpace 10"
  by (simp add: IsSpace_def)

lemma IsSpace_32 [simp]: "IsSpace 32"
  by (simp add: IsSpace_def)

lemma isWord_iff: "isWord f \<longleftrightarrow> f \<noteq> [] \<and> (\<forall>r\<in>set f. \<not> IsSpace r)"
  by (simp add: isWord_def list_ex_iff)

lemma isWord_snoc: "cur = [] \<or> isWord cur \<Longrightarrow> \<not> IsSpace c \<Longrightarrow> isWord (cur @ [c])"
  by (auto simp: isWord_iff)

lemma FieldsFrom_isWord:
  "cur = [] \<or> isWord cur \<Longrightarrow> f \<in> set (FieldsFrom cur s) \<Longrightarrow> isWord f"
proof (induction s arbitrary: cur)
  case Nil
  then show ?case by (auto split: if_splits)
next
  case (Cons c s)
  show ?case
  proof (cases "IsSpace c")
    case True
    with Cons.prems have "f = cur \<and> cur \<noteq> [] \<or> f \<in> set (FieldsFrom [] s)"
      by (auto split: if_splits)
    then show ?thesis
      using Cons.prems(1) Cons.IH [of "[]"] by auto
  next
    case False
    with Cons.prems have "f \<in> set (FieldsFrom (cur @ [c]) s)" by simp
    moreover have "isWord (cur @ [c])" using Cons.prems(1) False by (rule isWord_snoc)
    ultimately show ?thesis using Cons.IH [of "cur @ [c]"] by simp
  qed
qed

lemma Fields_isWord: "f \<in> set (Fields s) \<Longrightarrow> isWord f"
  unfolding Fields_def by (rule FieldsFrom_isWord [of "[]"]) auto

lemma FieldsFrom_nospace:
  "\<forall>r\<in>set s. \<not> IsSpace r \<Longrightarrow> FieldsFrom cur s = (if cur @ s = [] then [] else [cur @ s])"
  by (induction s arbitrary: cur) auto

lemma Fields_single: "isWord f \<Longrightarrow> Fields f = [f]"
  by (simp add: Fields_def FieldsFrom_nospace isWord_iff)

lemma isWord_no_newline: "isWord f \<Longrightarrow> 10 \<notin> set f"
  by (auto simp: isWord_iff)

lemma isWord_width: "isWord f \<Longrightarrow> 0 < StringWidth f"
  by (simp add: isWord_iff StringWidth_pos)

subsection \<open>Lines\<close>

lemma SplitFrom_nonempty [simp]: "SplitFrom cur sep s \<noteq> []"
  by (induction s arbitrary: cur) auto

lemma SplitFrom_snoc_sep: "SplitFrom cur sep (s @ [sep]) = SplitFrom cur sep s @ [[]]"
  by (induction s arbitrary: cur) auto

lemma SplitFrom_nosep: "sep \<notin> set t \<Longrightarrow> SplitFrom cur sep t = [cur @ t]"
  by (induction t arbitrary: cur) auto

lemma SplitFrom_append_nosep:
  "sep \<notin> set t \<Longrightarrow>
   SplitFrom cur sep (s @ t) = butlast (SplitFrom cur sep s) @ [last (SplitFrom cur sep s) @ t]"
  by (induction s arbitrary: cur) (auto simp: SplitFrom_nosep)

lemma Split_nonempty [simp]: "Split s sep \<noteq> []"
  by (simp add: Split_def)

lemma Split_snoc_sep: "Split (s @ [sep]) sep = Split s sep @ [[]]"
  by (simp add: Split_def SplitFrom_snoc_sep)

lemma Split_append_nosep:
  "sep \<notin> set t \<Longrightarrow> Split (s @ t) sep = butlast (Split s sep) @ [last (Split s sep) @ t]"
  by (simp add: Split_def SplitFrom_append_nosep)

lemma Split_append_seps: "Split (s @ replicate k sep) sep = Split s sep @ replicate k []"
proof (induction k)
  case 0
  show ?case by simp
next
  case (Suc k)
  have "Split (s @ replicate (Suc k) sep) sep = Split ((s @ replicate k sep) @ [sep]) sep"
    by (simp add: replicate_append_same)
  also have "\<dots> = Split (s @ replicate k sep) sep @ [[]]"
    by (rule Split_snoc_sep)
  also have "\<dots> = Split s sep @ replicate (Suc k) []"
    using Suc by (simp add: replicate_append_same)
  finally show ?case .
qed

section \<open>The line wrapper: invariant and layout\<close>

lemma lw_inv_flushN: "lw_inv l \<Longrightarrow> lw_inv (flushN k l)"
  by (auto simp: lw_inv_def flushN_def Let_def)

lemma lw_inv_flush: "lw_inv l \<Longrightarrow> lw_inv (flush l)"
  by (simp add: flush_def lw_inv_flushN)

lemma writeField_out:
  "lw_inv l \<Longrightarrow> isWord f \<Longrightarrow>
   out (writeField f l) = out l @ wrapWords (width l) (n l) [f]"
  by (auto simp: lw_inv_def writeField_def Let_def space_def)

lemma writeField_n:
  "lw_inv l \<Longrightarrow>
   n (writeField f l) =
     (if n l = 0 then StringWidth f
      else if n l + 1 + StringWidth f > width l then StringWidth f
      else n l + 1 + StringWidth f)"
  by (auto simp: lw_inv_def writeField_def Let_def)

lemma writeField_fields [simp]:
  "width (writeField f l) = width l" "nl (writeField f l) = nl l"
  "printed (writeField f l) = printed l" "pendSpace (writeField f l) = 1"
  by (simp_all add: writeField_def Let_def)

lemma lw_inv_writeField:
  "lw_inv l \<Longrightarrow> nl l = 0 \<Longrightarrow> isWord f \<Longrightarrow> lw_inv (writeField f l)"
  using isWord_width [of f]
  by (auto simp: lw_inv_def writeField_n)

lemma writeFields_out:
  "lw_inv l \<Longrightarrow> nl l = 0 \<Longrightarrow> \<forall>f\<in>set fs. isWord f \<Longrightarrow>
   out (writeFields fs l) = out l @ wrapWords (width l) (n l) fs"
proof (induction fs arbitrary: l)
  case Nil
  show ?case by simp
next
  case (Cons f fs)
  have w: "isWord f" using Cons.prems(3) by simp
  have inv: "lw_inv (writeField f l)" using Cons.prems(1,2) w by (rule lw_inv_writeField)
  have "out (writeFields fs (writeField f l)) =
        out (writeField f l) @ wrapWords (width l) (n (writeField f l)) fs"
    using Cons.IH [OF inv] Cons.prems(2,3) by simp
  then show ?case
    using Cons.prems(1) w by (simp add: writeField_out writeField_n)
qed

lemma writeFields_fields [simp]:
  "width (writeFields fs l) = width l" "nl (writeFields fs l) = nl l"
  "printed (writeFields fs l) = printed l"
  by (induction fs arbitrary: l) simp_all

lemma lw_inv_writeFields:
  "lw_inv l \<Longrightarrow> nl l = 0 \<Longrightarrow> \<forall>f\<in>set fs. isWord f \<Longrightarrow> lw_inv (writeFields fs l)"
  by (induction fs arbitrary: l) (simp_all add: lw_inv_writeField)

lemma flush_out:
  "lw_inv l \<Longrightarrow> n l = 0 \<Longrightarrow> out (flush l) = out l @ (if nl l = 0 then newline else [])"
  by (auto simp: flush_def flushN_def lw_inv_def Let_def)

lemma flush_n [simp]: "lw_inv l \<Longrightarrow> n (flush l) = 0 \<or> n (flush l) = n l"
  by (auto simp: flush_def flushN_def lw_inv_def Let_def)

lemma flushN_width [simp]: "width (flushN k l) = width l"
  by (simp add: flushN_def Let_def)

lemma flush_width [simp]: "width (flush l) = width l"
  by (simp add: flush_def)

lemma write'_out:
  "lw_inv l \<Longrightarrow>
   out (write' text l) =
     out l @ (if n l = 0 \<and> printed l \<and> nl l = 0 then newline else [])
           @ wrapWords (width l) (n l) (Fields text)"
proof -
  assume inv: "lw_inv l"
  define l1 where "l1 = (if n l = 0 \<and> printed l then flush l else l)"
  define l2 where "l2 = l1\<lparr>printed := True, nl := 0\<rparr>"
  have inv1: "lw_inv l1" using inv by (simp add: l1_def lw_inv_flush)
  have inv2: "lw_inv l2" "nl l2 = 0" using inv1 by (simp_all add: l2_def lw_inv_def)
  have n1: "n l1 = n l" using inv by (auto simp: l1_def flush_def flushN_def Let_def)
  have o1: "out l1 = out l @ (if n l = 0 \<and> printed l \<and> nl l = 0 then newline else [])"
    using inv by (simp add: l1_def flush_out)
  have "out (write' text l) = out (writeFields (Fields text) l2)"
    by (simp add: write'_def l1_def l2_def Let_def)
  also have "\<dots> = out l2 @ wrapWords (width l2) (n l2) (Fields text)"
    using inv2 by (rule writeFields_out) (simp add: Fields_isWord)
  finally show ?thesis
    using n1 o1 by (simp add: l2_def l1_def)
qed

lemma lw_inv_write': "lw_inv l \<Longrightarrow> lw_inv (write' text l)"
proof -
  assume inv: "lw_inv l"
  define l1 where "l1 = (if n l = 0 \<and> printed l then flush l else l)"
  define l2 where "l2 = l1\<lparr>printed := True, nl := 0\<rparr>"
  have inv1: "lw_inv l1" using inv by (simp add: l1_def lw_inv_flush)
  have inv2: "lw_inv l2" "nl l2 = 0" using inv1 by (simp_all add: l2_def lw_inv_def)
  have "write' text l = writeFields (Fields text) l2"
    by (simp add: write'_def l1_def l2_def Let_def)
  then show ?thesis
    using lw_inv_writeFields [OF inv2] by (simp add: Fields_isWord)
qed

section \<open>The line wrapper: width of the lines\<close>

lemma lineOK_word: "isWord f \<Longrightarrow> lineOK W f"
  by (simp add: lineOK_def Fields_single)

lemma lineOK_empty: "0 \<le> W \<Longrightarrow> lineOK W []"
  by (simp add: lineOK_def)

lemma list_all_butlast: "list_all P xs \<Longrightarrow> list_all P (butlast xs)"
  by (auto simp: list_all_iff dest: in_set_butlastD)

lemma concat_replicate_newline: "concat (replicate k newline) = replicate k 10"
  by (induction k) (simp_all add: newline_def)

lemma lw_lines_inv_writeField:
  assumes inv: "lw_lines_inv l" and nl0: "nl l = 0" and w: "isWord f"
  shows "lw_lines_inv (writeField f l)"
proof -
  define ls where "ls = butlast (Split (out l) 10)"
  define cur where "cur = last (Split (out l) 10)"
  have sp: "Split (out l) 10 = ls @ [cur]"
    by (simp add: ls_def cur_def)
  have li: "lw_inv l" and wd: "0 \<le> width l" and ncur: "n l = StringWidth cur"
    and ok: "list_all (lineOK (width l)) ls"
    using inv by (simp_all add: lw_lines_inv_def cur_def ls_def list_all_butlast)
  have nof: "10 \<notin> set f" using w by (rule isWord_no_newline)
  have inv': "lw_inv (writeField f l)" using li nl0 w by (rule lw_inv_writeField)
  have okf: "lineOK (width l) f" using w by (rule lineOK_word)
  have "n l = 0 \<or> 0 < n l" using li by (auto simp: lw_inv_def)
  then consider (empty) "n l = 0"
    | (wrap) "0 < n l" "n l + 1 + StringWidth f > width l"
    | (fit) "0 < n l" "\<not> n l + 1 + StringWidth f > width l"
    by blast
  then show ?thesis
  proof cases
    case empty
    then have c: "cur = []" using ncur by (simp add: StringWidth_zero)
    have o: "out (writeField f l) = out l @ f"
      using li empty by (simp add: writeField_def lw_inv_def Let_def)
    have "Split (out (writeField f l)) 10 = ls @ [f]"
      using nof by (simp add: o Split_append_nosep sp c)
    then show ?thesis
      using inv' wd ok okf li empty by (simp add: lw_lines_inv_def writeField_n)
  next
    case wrap
    have o: "out (writeField f l) = (out l @ [10]) @ f"
      using li wrap by (simp add: writeField_def lw_inv_def Let_def newline_def)
    have a: "Split (out l @ [10]) 10 = (ls @ [cur]) @ [[]]"
      by (simp only: Split_snoc_sep sp)
    have "Split ((out l @ [10]) @ f) 10 = ls @ [cur] @ [f]"
      by (simp only: Split_append_nosep [OF nof] a butlast_snoc last_snoc) simp
    then have "Split (out (writeField f l)) 10 = ls @ [cur] @ [f]"
      by (simp only: o)
    moreover have "lineOK (width l) cur"
      using inv by (simp add: lw_lines_inv_def sp)
    ultimately show ?thesis
      using inv' wd ok okf li wrap by (simp add: lw_lines_inv_def writeField_n)
  next
    case fit
    have o: "out (writeField f l) = out l @ (32 # f)"
      using li fit by (simp add: writeField_def lw_inv_def Let_def space_def)
    have "10 \<notin> set (32 # f)" using nof by simp
    then have s: "Split (out (writeField f l)) 10 = ls @ [cur @ 32 # f]"
      unfolding o by (simp add: Split_append_nosep sp)
    have wid: "StringWidth (cur @ 32 # f) = n l + 1 + StringWidth f"
      using ncur StringWidth_space by (simp add: space_def StringWidth_Cons)
    then have "lineOK (width l) (cur @ 32 # f)"
      using fit by (simp add: lineOK_def)
    then show ?thesis
      using inv' wd ok li fit wid s by (simp add: lw_lines_inv_def writeField_n)
  qed
qed

lemma lw_lines_inv_writeFields:
  "lw_lines_inv l \<Longrightarrow> nl l = 0 \<Longrightarrow> \<forall>f\<in>set fs. isWord f \<Longrightarrow> lw_lines_inv (writeFields fs l)"
  by (induction fs arbitrary: l) (simp_all add: lw_lines_inv_writeField)

lemma lw_lines_inv_flushN:
  assumes inv: "lw_lines_inv l"
  shows "lw_lines_inv (flushN k l)"
proof (cases "flushN k l = l")
  case True
  then show ?thesis using inv by simp
next
  case False
  define m where "m = nat (k - nl l)"
  have k: "1 \<le> k - nl l"
    using False by (auto simp: flushN_def Let_def split: if_splits)
  have o: "out (flushN k l) = out l @ replicate m 10" and n0: "n (flushN k l) = 0"
    using False k concat_replicate_newline [of m]
    by (auto simp: flushN_def Let_def m_def newline_def split: if_splits)
  have m: "0 < m" using k by (simp add: m_def)
  have s: "Split (out (flushN k l)) 10 = Split (out l) 10 @ replicate m []"
    unfolding o by (rule Split_append_seps)
  have l: "last (Split (out l) 10 @ replicate m []) = []"
    using m by (cases m) (simp_all add: last_append)
  have "list_all (lineOK (width l)) (replicate m [])"
    using inv by (simp add: list_all_iff lw_lines_inv_def lineOK_empty)
  then show ?thesis
    using inv lw_inv_flushN [of l k] s l n0 by (simp add: lw_lines_inv_def)
qed

lemma lw_lines_inv_write':
  assumes inv: "lw_lines_inv l"
  shows "lw_lines_inv (write' text l)"
proof -
  define l1 where "l1 = (if n l = 0 \<and> printed l then flush l else l)"
  define l2 where "l2 = l1\<lparr>printed := True, nl := 0\<rparr>"
  have inv1: "lw_lines_inv l1" using inv by (simp add: l1_def flush_def lw_lines_inv_flushN)
  have inv2: "lw_lines_inv l2" "nl l2 = 0"
    using inv1 by (simp_all add: l2_def lw_lines_inv_def lw_inv_def)
  have "write' text l = writeFields (Fields text) l2"
    by (simp add: write'_def l1_def l2_def Let_def)
  then show ?thesis
    using lw_lines_inv_writeFields [OF inv2] by (simp add: Fields_isWord)
qed

lemma lw_lines_inv_call: "lw_lines_inv l \<Longrightarrow> lw_lines_inv (call c l)"
  by (cases c) (simp_all add: lw_lines_inv_write' lw_lines_inv_flushN flush_def)

lemma lw_lines_inv_calls: "lw_lines_inv l \<Longrightarrow> lw_lines_inv (calls cs l)"
  by (induction cs arbitrary: l) (simp_all add: lw_lines_inv_call)

lemma lw_lines_inv_new:
  "0 \<le> W \<Longrightarrow> lw_lines_inv \<lparr>out = [], width = W, n = 0, nl = 0, pendSpace = 0, printed = False\<rparr>"
  by (simp add: lw_lines_inv_def lw_inv_def Split_def lineOK_def)

lemma write'_width [simp]: "width (write' text l) = width l"
  by (simp add: write'_def Let_def)

lemma call_width [simp]: "width (call c l) = width l"
  by (cases c) simp_all

lemma calls_width [simp]: "width (calls cs l) = width l"
  by (induction cs arbitrary: l) simp_all

text \<open>
  Claim C9. Whatever calls of \<open>write\<close>, \<open>flush\<close> and \<open>flushN\<close> a new line wrapper of width
  78 receives, every line of what it has written is at most 78 columns wide, or it is a
  single word (which then is wider than 78 columns by itself): no second word is ever
  appended to a line it would push past the width.
\<close>

theorem C9_lines_within_width:
  "\<forall>line \<in> set (Split (out (calls cs
       \<lparr>out = [], width = 78, n = 0, nl = 0, pendSpace = 0, printed = False\<rparr>)) 10).
     StringWidth line \<le> 78 \<or> Fields line = [line]"
proof -
  have "lw_lines_inv (calls cs \<lparr>out = [], width = 78, n = 0, nl = 0, pendSpace = 0, printed = False\<rparr>)"
    by (rule lw_lines_inv_calls) (simp add: lw_lines_inv_new)
  then show ?thesis
    by (simp add: lw_lines_inv_def list_all_iff lineOK_def)
qed


theorem C9_lines_within_width_witness:
  "[97, 98] \<in> set (Split (out (calls [Call_write [97, 98, 32, 32, 99], Call_flush, Call_write [97, 98]]
       \<lparr>out = [], width = 78, n = 0, nl = 0, pendSpace = 0, printed = False\<rparr>)) 10)
   \<and> (StringWidth [97, 98] \<le> 78 \<or> Fields [97, 98] = [[97, 98]])"
proof -
  have m: "[97, 98] \<in> set (Split (out (calls [Call_write [97, 98, 32, 32, 99], Call_flush, Call_write [97, 98]]
       \<lparr>out = [], width = 78, n = 0, nl = 0, pendSpace = 0, printed = False\<rparr>)) 10)"
    by (simp add: eval_defs)
  from C9_lines_within_width [of "[Call_write [97, 98, 32, 32, 99], Call_flush, Call_write [97, 98]]"] m
  show ?thesis by blast
qed
section \<open>What a traversal preserves\<close>

lemma preserved_refl [simp]: "preserved c c"
  by (simp add: preserved_def)

lemma preserved_trans: "preserved a b \<Longrightarrow> preserved b c \<Longrightarrow> preserved a c"
  by (auto simp: preserved_def)

lemma flushN_fields [simp]: "printed (flushN k l) = printed l"
  by (simp add: flushN_def Let_def)

lemma lw_inv_out_update [simp]: "lw_inv (l\<lparr>out := x\<rparr>) = lw_inv l"
  by (simp add: lw_inv_def)

lemma lw_inv_emit: "lw_inv (lineWrapper c) \<Longrightarrow> lw_inv (lineWrapper (emit d c))"
  by (simp add: emit_def buf_WriteString_def lw_inv_flush lw_inv_flushN lw_inv_write')

lemma emit_fields [simp]:
  "options (emit d c) = options c" "width (lineWrapper (emit d c)) = width (lineWrapper c)"
  "blockquoteLevel (emit d c) = blockquoteLevel c" "tableLevel (emit d c) = tableLevel c"
  "tableCtx (emit d c) = tableCtx c" "isPre (emit d c) = isPre c" "prefix (emit d c) = prefix c"
  "justClosedDiv (emit d c) = justClosedDiv c" "endsWithSpace (emit d c) = endsWithSpace c"
  by (simp_all add: emit_def buf_WriteString_def)

lemma preserved_emit [simp]: "preserved c (emit d c)"
  using lw_inv_emit [of c d] by (auto simp: preserved_def)

lemma preserved_emit_trans: "preserved a b \<Longrightarrow> preserved a (emit d b)"
  by (rule preserved_trans [OF _ preserved_emit])

text \<open>Updates of the fields that \<open>preserved\<close> does not look at.\<close>

lemma preserved_upd [simp]:
  "preserved a (b\<lparr>justClosedDiv := j\<rparr>) = preserved a b"
  "preserved a (b\<lparr>isPre := p\<rparr>) = preserved a b"
  "preserved a (b\<lparr>prefix := q\<rparr>) = preserved a b"
  "preserved a (b\<lparr>tableCtx := t\<rparr>) = preserved a b"
  "preserved a (b\<lparr>endsWithSpace := e\<rparr>) = preserved a b"
  "preserved (a\<lparr>justClosedDiv := j\<rparr>) b = preserved a b"
  "preserved (a\<lparr>isPre := p\<rparr>) b = preserved a b"
  "preserved (a\<lparr>prefix := q\<rparr>) b = preserved a b"
  "preserved (a\<lparr>tableCtx := t\<rparr>) b = preserved a b"
  "preserved (a\<lparr>endsWithSpace := e\<rparr>) b = preserved a b"
  by (simp_all add: preserved_def)

lemma andThen_eq_Inr: "andThen m f = Inr y \<longleftrightarrow> (\<exists>x. m = Inr x \<and> f x = Inr y)"
  by (cases m) simp_all

lemma keepsD: "keeps t \<Longrightarrow> t c = Inr c' \<Longrightarrow> preserved c c'"
  by (auto simp: keeps_def)

lemma keepsI: "(\<And>c c'. t c = Inr c' \<Longrightarrow> preserved c c') \<Longrightarrow> keeps t"
  by (auto simp: keeps_def)

lemma preserved_flush: "preserved c (c\<lparr>lineWrapper := flush (lineWrapper c)\<rparr>)"
  using lw_inv_flush [of "lineWrapper c"] by (auto simp: preserved_def)

lemma preserved_emitL: "preserved (emit d c) x \<Longrightarrow> preserved c x"
  by (rule preserved_trans [OF preserved_emit])

lemma preserved_flushL: "preserved (c\<lparr>lineWrapper := flush (lineWrapper c)\<rparr>) x \<Longrightarrow> preserved c x"
  by (rule preserved_trans [OF preserved_flush])

lemma keeps_H1_H2_H3: "keeps (case_H1_H2_H3 a t)"
  by (rule keepsI)
     (auto simp: case_H1_H2_H3_def andThen_eq_Inr Let_def intro!: preserved_emit_trans
           split: if_splits)

lemma keeps_B_Strong: "keeps (case_B_Strong t)"
  by (rule keepsI)
     (auto simp: case_B_Strong_def andThen_eq_Inr Let_def intro!: preserved_emit_trans
           split: if_splits)

lemma keeps_Div:
  assumes "keeps t"
  shows "keeps (case_Div t)"
proof (rule keepsI)
  fix c c'
  assume "case_Div t c = Inr c'"
  then obtain x where x: "t (c\<lparr>lineWrapper := flush (lineWrapper c)\<rparr>) = Inr x"
    and c': "c' = (if \<not> justClosedDiv x then emit newline x else x)\<lparr>justClosedDiv := True\<rparr>"
    by (auto simp: case_Div_def andThen_eq_Inr Let_def)
  have "preserved c x"
    using keepsD [OF assms x] by (rule preserved_flushL)
  then show "preserved c c'"
    by (simp add: c' preserved_emit_trans)
qed

lemma keeps_Li:
  assumes "keeps t"
  shows "keeps (case_Li t)"
proof (rule keepsI)
  fix c c'
  assume "case_Li t c = Inr c'"
  then obtain x where x: "t (if \<not> TextOnly (options c) then emit (ascii ''- '') c else c) = Inr x"
    and c': "c' = emit newline x"
    by (auto simp: case_Li_def andThen_eq_Inr Let_def)
  have "preserved c x"
    using keepsD [OF assms x] by (auto intro: preserved_emitL split: if_splits)
  then show "preserved c c'"
    by (simp add: c' preserved_emit_trans)
qed

lemma keeps_paragraphHandler:
  assumes "keeps t"
  shows "keeps (paragraphHandler t)"
proof (rule keepsI)
  fix c c'
  assume "paragraphHandler t c = Inr c'"
  then obtain x where x: "t (emit (newline @ newline) c) = Inr x"
    and c': "c' = emit (newline @ newline) x"
    by (auto simp: paragraphHandler_def andThen_eq_Inr)
  have "preserved c x"
    using keepsD [OF assms x] by (rule preserved_emitL)
  then show "preserved c c'"
    by (simp add: c' preserved_emit_trans)
qed

lemma keeps_Pre:
  assumes "keeps t"
  shows "keeps (case_Pre t)"
proof (rule keepsI)
  fix c c'
  assume "case_Pre t c = Inr c'"
  then obtain x where x: "t (c\<lparr>isPre := True\<rparr>) = Inr x" and c': "c' = x\<lparr>isPre := False\<rparr>"
    by (auto simp: case_Pre_def andThen_eq_Inr)
  show "preserved c c'"
    using keepsD [OF assms x] by (simp add: c')
qed

lemma keeps_A:
  assumes "keeps t"
  shows "keeps (case_A node t)"
proof (rule keepsI)
  fix c c'
  assume "case_A node t c = Inr c'"
  then obtain x h where x: "t c = Inr x \<or> x = c \<or> (\<exists>alt. x = emit alt c)" and c': "c' = emit h x"
    by (auto simp: case_A_def andThen_eq_Inr Let_def split: list.splits if_splits)
  have "preserved c x"
    using x keepsD [OF assms] by auto
  then show "preserved c c'"
    by (simp add: c' preserved_emit_trans)
qed

lemma Repeat_eq_Inr: "Repeat s k = Inr r \<longleftrightarrow> 0 \<le> k \<and> r = concat (replicate (nat k) s)"
  by (auto simp: Repeat_def)

lemma prefix_step:
  "(if b then andThen (Repeat s k) (\<lambda>r. Inr (c\<lparr>prefix := g r\<rparr>)) else Inr c) = Inr x
   \<Longrightarrow> \<exists>p. x = c\<lparr>prefix := p\<rparr>"
  by (cases b) (auto simp: andThen_eq_Inr intro: exI [of _ "prefix c"])

lemma blockquote_enter_preserved:
  assumes "blockquote_enter c = Inr x"
  shows "preserved (c\<lparr>blockquoteLevel := blockquoteLevel c + 1\<rparr>) x"
proof -
  let ?c1 = "c\<lparr>blockquoteLevel := blockquoteLevel c + 1\<rparr>"
  from assms obtain c2 where
    s1: "(if \<not> TextOnly (options ?c1)
          then andThen (Repeat (ascii ''>'') (blockquoteLevel ?c1)) (\<lambda>r. Inr (?c1\<lparr>prefix := r @ space\<rparr>))
          else Inr ?c1) = Inr c2"
    and x: "x = (if blockquoteLevel (emit newline c2) = 1 then emit newline (emit newline c2) else emit newline c2)"
    unfolding blockquote_enter_def Let_def andThen_eq_Inr by blast
  from prefix_step [OF s1] obtain p where "c2 = ?c1\<lparr>prefix := p\<rparr>" ..
  then have "preserved ?c1 c2" by simp
  then show ?thesis
    unfolding x by (simp add: preserved_emit_trans)
qed

lemma blockquote_leave_preserved:
  assumes "blockquote_leave x = Inr c'"
  shows "preserved (x\<lparr>blockquoteLevel := blockquoteLevel x - 1\<rparr>) c'"
proof -
  let ?c1 = "x\<lparr>blockquoteLevel := blockquoteLevel x - 1\<rparr>"
  from assms obtain c2 where
    s1: "(if \<not> TextOnly (options ?c1)
          then andThen (Repeat (ascii ''>'') (blockquoteLevel ?c1)) (\<lambda>r. Inr (?c1\<lparr>prefix := r\<rparr>))
          else Inr ?c1) = Inr c2"
    and c': "c' = emit (newline @ newline) (if blockquoteLevel c2 > 0 then c2\<lparr>prefix := prefix c2 @ space\<rparr> else c2)"
    unfolding blockquote_leave_def Let_def andThen_eq_Inr by blast
  from prefix_step [OF s1] obtain p where "c2 = ?c1\<lparr>prefix := p\<rparr>" ..
  then have "preserved ?c1 c2" by simp
  then show ?thesis
    unfolding c' by (simp add: preserved_emit_trans)
qed

lemma keeps_Blockquote:
  assumes "keeps t"
  shows "keeps (case_Blockquote t)"
proof (rule keepsI)
  fix c c'
  assume "case_Blockquote t c = Inr c'"
  then obtain x y where x: "blockquote_enter c = Inr x" and y: "t x = Inr y"
    and c': "blockquote_leave y = Inr c'"
    unfolding case_Blockquote_def andThen_eq_Inr by blast
  show "preserved c c'"
    using blockquote_enter_preserved [OF x] keepsD [OF assms y] blockquote_leave_preserved [OF c']
    by (auto simp: preserved_def)
qed

lemma keeps_table_Table:
  assumes "keeps t"
  shows "keeps (table_Table tw t)"
proof (rule keepsI)
  fix c c'
  assume "table_Table tw t c = Inr c'"
  then obtain x r where x: "t ((emit (newline @ newline) c)\<lparr>tableCtx := init (tableCtx (emit (newline @ newline) c))\<rparr>) = Inr x"
    and c': "c' = emit (newline @ newline) (emit r x)"
    by (auto simp: table_Table_def andThen_eq_Inr Let_def)
  have "preserved c x"
    using keepsD [OF assms x] by (auto intro: preserved_emitL)
  then show "preserved c c'"
    by (simp add: c' preserved_emit_trans)
qed

lemma keeps_table_Tfoot:
  assumes "keeps t"
  shows "keeps (table_Tfoot t)"
proof (rule keepsI)
  fix c c'
  assume "table_Tfoot t c = Inr c'"
  then obtain x where x: "t (c\<lparr>tableCtx := (tableCtx c)\<lparr>isInFooter := True\<rparr>\<rparr>) = Inr x"
    and c': "c' = x\<lparr>tableCtx := (tableCtx x)\<lparr>isInFooter := False\<rparr>\<rparr>"
    by (auto simp: table_Tfoot_def andThen_eq_Inr)
  show "preserved c c'"
    using keepsD [OF assms x] by (simp add: c')
qed

lemma keeps_table_Tr:
  assumes "keeps t"
  shows "keeps (table_Tr t)"
proof (rule keepsI)
  fix c c'
  assume "table_Tr t c = Inr c'"
  then obtain x where x: "t (c\<lparr>tableCtx := (tableCtx c)\<lparr>body := body (tableCtx c) @ [[]]\<rparr>\<rparr>) = Inr x"
    and c': "c' = x\<lparr>tableCtx := (tableCtx x)\<lparr>tmpRow := tmpRow (tableCtx x) + 1\<rparr>\<rparr>"
    by (auto simp: table_Tr_def andThen_eq_Inr)
  show "preserved c c'"
    using keepsD [OF assms x] by (simp add: c')
qed

lemma keeps_table_Th: "keeps (table_Th r)"
  by (rule keepsI) (auto simp: table_Th_def andThen_eq_Inr)

lemma keeps_table_Td: "keeps (table_Td r)"
  by (rule keepsI) (auto simp: table_Td_def andThen_eq_Inr Let_def split: if_splits)

lemma keeps_seq:
  assumes "keeps t" and "keeps t'"
  shows "keeps (\<lambda>c. andThen (t c) t')"
proof (rule keepsI)
  fix c c'
  assume "andThen (t c) t' = Inr c'"
  then obtain x where "t c = Inr x" and "t' x = Inr c'"
    by (auto simp: andThen_eq_Inr)
  then show "preserved c c'"
    using keepsD [OF assms(1)] keepsD [OF assms(2)] preserved_trans by blast
qed

lemma keeps_tableLevel:
  assumes "keeps t"
  shows "keeps (\<lambda>c. andThen (t (c\<lparr>tableLevel := tableLevel c + 1\<rparr>))
                        (\<lambda>ctx. Inr (ctx\<lparr>tableLevel := tableLevel ctx - 1\<rparr>)))"
proof (rule keepsI)
  fix c c'
  assume "andThen (t (c\<lparr>tableLevel := tableLevel c + 1\<rparr>))
            (\<lambda>ctx. Inr (ctx\<lparr>tableLevel := tableLevel ctx - 1\<rparr>)) = Inr c'"
  then obtain x where x: "t (c\<lparr>tableLevel := tableLevel c + 1\<rparr>) = Inr x"
    and c': "c' = x\<lparr>tableLevel := tableLevel x - 1\<rparr>"
    by (auto simp: andThen_eq_Inr)
  show "preserved c c'"
    using keepsD [OF assms x] by (auto simp: preserved_def c')
qed

lemma traversal_preserved:
  shows "traverse tw node ctx = Inr c1 \<Longrightarrow> preserved ctx c1"
    and "traverseChildren tw cs ctx2 = Inr c2 \<Longrightarrow> preserved ctx2 c2"
    and "handleElement tw node3 ctx3 = Inr c3 \<Longrightarrow> preserved ctx3 c3"
    and "handleTableElement tw node4 ctx4 = Inr c4 \<Longrightarrow> preserved ctx4 c4"
    and "renderEachChild tw ctx5 b5 cs5 = renderEachChild tw ctx5 b5 cs5"
    and "FromHTMLNode tw doc os = FromHTMLNode tw doc os"
proof (induct tw node ctx and tw cs ctx2 and tw node3 ctx3 and tw node4 ctx4 and tw ctx5 b5 cs5 and tw doc os
       arbitrary: c1 and c2 and c3 and c4
       rule: traverse_traverseChildren_handleElement_handleTableElement_renderEachChild_FromHTMLNode.induct)
  case (1 tw ty a d attrs cs ctx)
  then show ?case
    by (auto simp: traverse.simps split: if_splits)
next
  case (2 tw ctx)
  then show ?case by simp
next
  case (3 tw c cs ctx)
  then show ?case
    by (auto simp: andThen_eq_Inr intro: preserved_trans)
next
  case (4 tw ty a d attrs cs ctx0)
  let ?t = "traverseChildren tw cs"
  let ?ctx = "ctx0\<lparr>justClosedDiv := False\<rparr>"
  note IH = "4.hyps" [OF refl]
  have k: "keeps ?t"
    if "a \<in> {Atom_Blockquote, Atom_Div, Atom_Li, Atom_A, Atom_P, Atom_Ul, Atom_Pre}
        \<or> a = Atom_Table \<and> \<not> PrettyTables (options ctx0)"
  proof (rule keepsI)
    fix c c'
    assume e: "?t c = Inr c'"
    show "preserved c c'"
    proof (cases a)
      case Atom_Br
      then show ?thesis using that by simp
    next
      case Atom_H1
      then show ?thesis using that by simp
    next
      case Atom_H2
      then show ?thesis using that by simp
    next
      case Atom_H3
      then show ?thesis using that by simp
    next
      case Atom_Blockquote
      show ?thesis by (rule IH(2)) (use Atom_Blockquote e that in simp_all)
    next
      case Atom_Div
      show ?thesis by (rule IH(3)) (use Atom_Div e that in simp_all)
    next
      case Atom_Li
      show ?thesis by (rule IH(4)) (use Atom_Li e that in simp_all)
    next
      case Atom_B
      then show ?thesis using that by simp
    next
      case Atom_Strong
      then show ?thesis using that by simp
    next
      case Atom_A
      show ?thesis by (rule IH(6)) (use Atom_A e that in simp_all)
    next
      case Atom_Img
      then show ?thesis using that by simp
    next
      case Atom_P
      show ?thesis by (rule IH(7)) (use Atom_P e that in simp_all)
    next
      case Atom_Ul
      show ?thesis by (rule IH(7)) (use Atom_Ul e that in simp_all)
    next
      case Atom_Table
      show ?thesis
        by (rule IH(9) [where xa = "?ctx\<lparr>tableLevel := tableLevel ?ctx + 1\<rparr>"])
           (use Atom_Table e that in simp_all)
    next
      case Atom_Tfoot
      then show ?thesis using that by simp
    next
      case Atom_Th
      then show ?thesis using that by simp
    next
      case Atom_Tr
      then show ?thesis using that by simp
    next
      case Atom_Td
      then show ?thesis using that by simp
    next
      case Atom_Pre
      show ?thesis by (rule IH(11)) (use Atom_Pre e that in simp_all)
    next
      case Atom_Style
      then show ?thesis using that by simp
    next
      case Atom_Script
      then show ?thesis using that by simp
    next
      case Atom_Head
      then show ?thesis using that by simp
    next
      case Atom_Other
      then show ?thesis using that by simp
    qed
  qed
  show ?case
  proof (cases a)
    case Atom_Br
    then show ?thesis using "4.prems" by (auto simp: handleElement.simps Let_def intro!: preserved_emit_trans)
  next
    case Atom_H1
    then show ?thesis
      using "4.prems" keepsD [OF keeps_H1_H2_H3, of Atom_H1 ?t ?ctx c3] by (simp add: handleElement.simps Let_def)
  next
    case Atom_H2
    then show ?thesis
      using "4.prems" keepsD [OF keeps_H1_H2_H3, of Atom_H2 ?t ?ctx c3] by (simp add: handleElement.simps Let_def)
  next
    case Atom_H3
    then show ?thesis
      using "4.prems" keepsD [OF keeps_H1_H2_H3, of Atom_H3 ?t ?ctx c3] by (simp add: handleElement.simps Let_def)
  next
    case Atom_Blockquote
    then have "keeps (case_Blockquote ?t)"
      by (intro keeps_Blockquote k) simp
    from keepsD [OF this, of ?ctx c3] Atom_Blockquote show ?thesis
      using "4.prems" by (simp add: handleElement.simps Let_def)
  next
    case Atom_Div
    then have "keeps (case_Div ?t)"
      by (intro keeps_Div k) simp
    from keepsD [OF this, of ?ctx c3] Atom_Div show ?thesis
      using "4.prems" by (simp add: handleElement.simps Let_def)
  next
    case Atom_Li
    then have "keeps (case_Li ?t)"
      by (intro keeps_Li k) simp
    from keepsD [OF this, of ?ctx c3] Atom_Li show ?thesis
      using "4.prems" by (simp add: handleElement.simps Let_def)
  next
    case Atom_B
    then show ?thesis
      using "4.prems" keepsD [OF keeps_B_Strong, of ?t ?ctx c3] by (simp add: handleElement.simps Let_def)
  next
    case Atom_Strong
    then show ?thesis
      using "4.prems" keepsD [OF keeps_B_Strong, of ?t ?ctx c3] by (simp add: handleElement.simps Let_def)
  next
    case Atom_A
    then have "keeps (case_A (Node ty a d attrs cs) ?t)"
      by (intro keeps_A k) simp
    from keepsD [OF this, of ?ctx c3] Atom_A show ?thesis
      using "4.prems" by (simp add: handleElement.simps Let_def)
  next
    case Atom_Img
    have "preserved ?ctx c3"
      by (rule IH(12)) (use Atom_Img "4.prems" in \<open>simp_all add: handleElement.simps Let_def\<close>)
    then show ?thesis by simp
  next
    case Atom_P
    then have "keeps (paragraphHandler ?t)"
      by (intro keeps_paragraphHandler k) simp
    from keepsD [OF this, of ?ctx c3] Atom_P show ?thesis
      using "4.prems" by (simp add: handleElement.simps Let_def)
  next
    case Atom_Ul
    then have "keeps (paragraphHandler ?t)"
      by (intro keeps_paragraphHandler k) simp
    from keepsD [OF this, of ?ctx c3] Atom_Ul show ?thesis
      using "4.prems" by (simp add: handleElement.simps Let_def)
  next
    case Atom_Table
    show ?thesis
    proof (cases "PrettyTables (options ctx0)")
      case True
      from "4.prems" obtain x where x: "handleTableElement tw (Node ty a d attrs cs) (?ctx\<lparr>tableLevel := tableLevel ?ctx + 1\<rparr>) = Inr x"
        and c3: "c3 = x\<lparr>tableLevel := tableLevel x - 1\<rparr>"
        using Atom_Table True by (auto simp: handleElement.simps Let_def andThen_eq_Inr)
      have "preserved (?ctx\<lparr>tableLevel := tableLevel ?ctx + 1\<rparr>) x"
        by (rule IH(8) [where xa = "?ctx\<lparr>tableLevel := tableLevel ?ctx + 1\<rparr>"])
           (use Atom_Table True x in simp_all)
      then show ?thesis
        by (auto simp: preserved_def c3)
    next
      case False
      then have "keeps (paragraphHandler ?t)"
        using Atom_Table by (intro keeps_paragraphHandler k) simp
      from keepsD [OF keeps_tableLevel [OF this], of ?ctx c3] show ?thesis
        using "4.prems" Atom_Table False by (simp add: handleElement.simps Let_def)
    qed
  next
    case Atom_Tfoot
    show ?thesis
    proof (cases "PrettyTables (options ctx0)")
      case True
      have "preserved ?ctx c3"
        by (rule IH(8)) (use Atom_Tfoot True "4.prems" in \<open>simp_all add: handleElement.simps Let_def\<close>)
      then show ?thesis by simp
    next
      case False
      have "preserved ?ctx c3"
        by (rule IH(10)) (use Atom_Tfoot False "4.prems" in \<open>simp_all add: handleElement.simps Let_def\<close>)
      then show ?thesis by simp
    qed
  next
    case Atom_Th
    show ?thesis
    proof (cases "PrettyTables (options ctx0)")
      case True
      have "preserved ?ctx c3"
        by (rule IH(8)) (use Atom_Th True "4.prems" in \<open>simp_all add: handleElement.simps Let_def\<close>)
      then show ?thesis by simp
    next
      case False
      have "preserved ?ctx c3"
        by (rule IH(10)) (use Atom_Th False "4.prems" in \<open>simp_all add: handleElement.simps Let_def\<close>)
      then show ?thesis by simp
    qed
  next
    case Atom_Tr
    show ?thesis
    proof (cases "PrettyTables (options ctx0)")
      case True
      have "preserved ?ctx c3"
        by (rule IH(8)) (use Atom_Tr True "4.prems" in \<open>simp_all add: handleElement.simps Let_def\<close>)
      then show ?thesis by simp
    next
      case False
      have "preserved ?ctx c3"
        by (rule IH(10)) (use Atom_Tr False "4.prems" in \<open>simp_all add: handleElement.simps Let_def\<close>)
      then show ?thesis by simp
    qed
  next
    case Atom_Td
    show ?thesis
    proof (cases "PrettyTables (options ctx0)")
      case True
      have "preserved ?ctx c3"
        by (rule IH(8)) (use Atom_Td True "4.prems" in \<open>simp_all add: handleElement.simps Let_def\<close>)
      then show ?thesis by simp
    next
      case False
      have "preserved ?ctx c3"
        by (rule IH(10)) (use Atom_Td False "4.prems" in \<open>simp_all add: handleElement.simps Let_def\<close>)
      then show ?thesis by simp
    qed
  next
    case Atom_Pre
    then have "keeps (case_Pre ?t)"
      by (intro keeps_Pre k) simp
    from keepsD [OF this, of ?ctx c3] Atom_Pre show ?thesis
      using "4.prems" by (simp add: handleElement.simps Let_def)
  next
    case Atom_Style
    then show ?thesis using "4.prems" by (auto simp: handleElement.simps Let_def intro!: preserved_emit_trans)
  next
    case Atom_Script
    then show ?thesis using "4.prems" by (auto simp: handleElement.simps Let_def intro!: preserved_emit_trans)
  next
    case Atom_Head
    then show ?thesis using "4.prems" by (auto simp: handleElement.simps Let_def intro!: preserved_emit_trans)
  next
    case Atom_Other
    have "preserved ?ctx c3"
      by (rule IH(12)) (use Atom_Other "4.prems" in \<open>simp_all add: handleElement.simps Let_def\<close>)
    then show ?thesis by simp
  qed
next
  case (5 tw ty a d attrs cs ctx)
  let ?t = "traverseChildren tw cs"
  have pt: "PrettyTables (options ctx)"
    using "5.prems" by (auto simp: handleTableElement.simps split: if_splits)
  have k: "keeps ?t" if "a \<in> {Atom_Table, Atom_Tfoot, Atom_Tr}"
    using that pt "5.hyps"(1-3) by (auto simp: keeps_def)
  have "keeps (table_Table tw ?t)" if "a = Atom_Table"
    using that by (intro keeps_table_Table k) simp
  moreover have "keeps (table_Tfoot ?t)" if "a = Atom_Tfoot"
    using that by (intro keeps_table_Tfoot k) simp
  moreover have "keeps (table_Tr ?t)" if "a = Atom_Tr"
    using that by (intro keeps_table_Tr k) simp
  ultimately show ?case
    using "5.prems" pt keeps_table_Th keeps_table_Td
    by (auto simp: handleTableElement.simps keeps_def split: if_splits)
qed simp_all

section \<open>The layout of the words of a call of write\<close>

lemma FieldsFrom_concat:
  "concat (FieldsFrom cur s) = cur @ filter (\<lambda>r. \<not> IsSpace r) s"
  by (induction s arbitrary: cur) auto

lemma Fields_concat: "concat (Fields s) = filter (\<lambda>r. \<not> IsSpace r) s"
  by (simp add: Fields_def FieldsFrom_concat)

lemma StringWidth_count: "StringWidth s = int (length s) + int (length (filter IsWide s))"
  by (induction s) (simp_all add: StringWidth_Cons RuneWidth_def)

lemma StringWidth_replicate: "StringWidth (replicate k r) = int k * RuneWidth r"
  by (induction k) (simp_all add: StringWidth_Cons algebra_simps)

lemma sub_width: "width (lineWrapper (sub ctx)) = width (lineWrapper ctx)"
  by (simp add: sub_def newContext_def)

text \<open>
  Claim C7. \<open>write\<close> splits the text into its white-space delimited words and lays them
  out: words on a line are joined by one space, and a word goes to a new line exactly
  when the line is not empty and the column count plus the pending space plus the
  display width of the word exceeds the width. \<open>wrapWords\<close> is that layout, stated without
  the wrapper's \<open>pendSpace\<close>; a newline comes first when the wrapper starts a new
  paragraph. The words are the maximal runs of runes that are not white space; the
  display width counts a wide rune twice; the width is the 78 that \<open>FromHTMLNode\<close> sets,
  which \<open>sub\<close> hands on and no traversal changes. So two words of 30 Latin letters share
  a line where two words of 30 CJK ideographs do not.
\<close>

theorem C7_write_wraps_words:
  "lw_inv l \<Longrightarrow>
   out (write' text l) =
     out l @ (if n l = 0 \<and> printed l \<and> nl l = 0 then newline else [])
           @ wrapWords (width l) (n l) (Fields text)
   \<and> list_all isWord (Fields text)
   \<and> concat (Fields text) = filter (\<lambda>r. \<not> IsSpace r) text
   \<and> StringWidth f = int (length f) + int (length (filter IsWide f))
   \<and> width (lineWrapper (newContext opts 78)) = 78
   \<and> width (lineWrapper (sub ctx)) = width (lineWrapper ctx)
   \<and> (\<forall>ctx'. traverse tw node ctx = Inr ctx' \<longrightarrow> width (lineWrapper ctx') = width (lineWrapper ctx))
   \<and> wrapWords 78 0 [replicate 30 97, replicate 30 97] = replicate 30 97 @ space @ replicate 30 97
   \<and> wrapWords 78 0 [replicate 30 0x4E2D, replicate 30 0x4E2D]
       = replicate 30 0x4E2D @ newline @ replicate 30 0x4E2D"
proof (intro conjI)
  assume "lw_inv l"
  then show "out (write' text l) =
     out l @ (if n l = 0 \<and> printed l \<and> nl l = 0 then newline else [])
           @ wrapWords (width l) (n l) (Fields text)"
    by (rule write'_out)
next
  show "list_all isWord (Fields text)"
    by (simp add: list_all_iff Fields_isWord)
next
  show "concat (Fields text) = filter (\<lambda>r. \<not> IsSpace r) text"
    by (rule Fields_concat)
next
  show "StringWidth f = int (length f) + int (length (filter IsWide f))"
    by (rule StringWidth_count)
next
  show "width (lineWrapper (newContext opts 78)) = 78"
    by (simp add: newContext_def)
next
  show "width (lineWrapper (sub ctx)) = width (lineWrapper ctx)"
    by (rule sub_width)
next
  show "\<forall>ctx'. traverse tw node ctx = Inr ctx' \<longrightarrow> width (lineWrapper ctx') = width (lineWrapper ctx)"
    using traversal_preserved(1) [of tw node ctx] by (auto simp: preserved_def)
next
  show "wrapWords 78 0 [replicate 30 97, replicate 30 97] = replicate 30 97 @ space @ replicate 30 97"
    by (simp add: StringWidth_replicate RuneWidth_def IsWide_def)
next
  show "wrapWords 78 0 [replicate 30 0x4E2D, replicate 30 0x4E2D]
       = replicate 30 0x4E2D @ newline @ replicate 30 0x4E2D"
    by (simp add: StringWidth_replicate RuneWidth_def IsWide_def)
qed

theorem C7_write_wraps_words_witness:
  "lw_inv \<lparr>out = [97, 98], width = 78, n = 2, nl = 0, pendSpace = 1, printed = True\<rparr>
   \<and> out (write' [32, 99, 100, 32, 10, 101, 102, 32]
             \<lparr>out = [97, 98], width = 78, n = 2, nl = 0, pendSpace = 1, printed = True\<rparr>)
       = [97, 98, 32, 99, 100, 32, 101, 102]"
proof -
  have i: "lw_inv \<lparr>out = [97, 98], width = 78, n = 2, nl = 0, pendSpace = 1, printed = True\<rparr>"
    by (simp add: lw_inv_def)
  from C7_write_wraps_words [OF i, of "[32, 99, 100, 32, 10, 101, 102, 32]"]
  have "out (write' [32, 99, 100, 32, 10, 101, 102, 32]
             \<lparr>out = [97, 98], width = 78, n = 2, nl = 0, pendSpace = 1, printed = True\<rparr>)
        = [97, 98] @ wrapWords 78 2 (Fields [32, 99, 100, 32, 10, 101, 102, 32])"
    by simp
  then show ?thesis
    using i by (simp add: Fields_def IsSpace_def StringWidth_def RuneWidth_def IsWide_def space_def)
qed

section \<open>The final pass over the buffer\<close>

lemma HasPrefix_iff: "HasPrefix s p \<longleftrightarrow> (\<exists>v. s = p @ v)"
proof
  assume "HasPrefix s p"
  then have "s = p @ drop (length p) s"
    by (metis HasPrefix_def append_take_drop_id)
  then show "\<exists>v. s = p @ v" ..
next
  assume "\<exists>v. s = p @ v"
  then show "HasPrefix s p" by (auto simp: HasPrefix_def)
qed

lemma Contains_iff: "Contains s x \<longleftrightarrow> (\<exists>u v. s = u @ x @ v)"
proof (induction s)
  case Nil
  show ?case by auto
next
  case (Cons c s)
  show ?case
  proof
    assume "Contains (c # s) x"
    then consider "HasPrefix (c # s) x" | "Contains s x" by auto
    then show "\<exists>u v. c # s = u @ x @ v"
    proof cases
      case 1
      then obtain v where "c # s = [] @ x @ v" by (auto simp: HasPrefix_iff)
      then show ?thesis by blast
    next
      case 2
      then obtain u v where "s = u @ x @ v" using Cons.IH by auto
      then have "c # s = (c # u) @ x @ v" by simp
      then show ?thesis by blast
    qed
  next
    assume "\<exists>u v. c # s = u @ x @ v"
    then obtain u v where e: "c # s = u @ x @ v" by auto
    show "Contains (c # s) x"
    proof (cases u)
      case Nil
      then have "HasPrefix (c # s) x" using e by (auto simp: HasPrefix_iff)
      then show ?thesis by simp
    next
      case (Cons c' u')
      then have "s = u' @ x @ v" using e by simp
      then have "Contains s x" using Cons.IH by auto
      then show ?thesis by simp
    qed
  qed
qed

lemma Contains_sublist: "Contains t x \<Longrightarrow> s = u @ t @ v \<Longrightarrow> Contains s x"
proof -
  assume "Contains t x" and s: "s = u @ t @ v"
  then obtain u' v' where "t = u' @ x @ v'" by (auto simp: Contains_iff)
  then have "s = (u @ u') @ x @ (v' @ v)" using s by simp
  then show ?thesis unfolding Contains_iff by blast
qed

lemma Contains_Cons2: "Contains (c # t) [a, b] \<longleftrightarrow> c = a \<and> take (Suc 0) t = [b] \<or> Contains t [a, b]"
  by (cases t) (auto simp: HasPrefix_def)

lemma Contains_Cons3:
  "Contains (c # t) [a, b, e] \<longleftrightarrow> c = a \<and> take 2 t = [b, e] \<or> Contains t [a, b, e]"
  by (cases t) (auto simp: HasPrefix_def numeral_2_eq_2)

declare Contains.simps(2) [simp del]

lemma Contains_Nil2 [simp]: "\<not> Contains [] [a, b]" "\<not> Contains [c] [a, b]"
  by (simp_all add: Contains.simps(2) HasPrefix_def)

lemma Contains_Nil3 [simp]: "\<not> Contains [] [a, b, e]" "\<not> Contains [c] [a, b, e]"
  "\<not> Contains [c, d] [a, b, e]"
  by (simp_all add: Contains.simps(2) HasPrefix_def)

subsection \<open>The replacement of newline-space\<close>

lemma Replace_nl_space_take1: "take (Suc 0) (Replace_nl_space s) = take (Suc 0) s"
  by (induction s rule: Replace_nl_space.induct) auto

lemma Replace_nl_space_no_nl_space:
  "\<not> Contains s [10, 32, 32] \<Longrightarrow> \<not> Contains (Replace_nl_space s) [10, 32]"
proof (induction s rule: Replace_nl_space.induct)
  case 1
  show ?case by simp
next
  case (2 c)
  show ?case by simp
next
  case (3 c d s)
  show ?case
  proof (cases "c = 10 \<and> d = 32")
    case True
    have a: "take (Suc 0) s \<noteq> [32]" and b: "\<not> Contains s [10, 32, 32]"
      using "3.prems" True by (cases s; auto simp: Contains_Cons3 numeral_2_eq_2)+
    have "\<not> Contains (Replace_nl_space s) [10, 32]"
      using "3.IH"(1) True b by simp
    then show ?thesis
      using True a by (simp add: Contains_Cons2 Replace_nl_space_take1)
  next
    case False
    have b: "\<not> Contains (d # s) [10, 32, 32]"
      using "3.prems" by (simp add: Contains_Cons3)
    have "\<not> Contains (Replace_nl_space (d # s)) [10, 32]"
      using "3.IH"(2) False b by simp
    then show ?thesis
      using False by (auto simp: Contains_Cons2 Replace_nl_space_take1)
  qed
qed

subsection \<open>The collapse of newlines\<close>

lemma newlineRe_take1: "take (Suc 0) (newlineRe_ReplaceAllString s) = take (Suc 0) s"
  by (induction s rule: newlineRe_ReplaceAllString.induct) auto

lemma dropWhile_nl_take1: "take (Suc 0) (dropWhile (\<lambda>x. x = 10) s) \<noteq> [10::nat]"
  by (induction s) auto

lemma take2_take1: "take 2 s = [a, b] \<Longrightarrow> take (Suc 0) s = [a]"
  by (cases s) (auto simp: numeral_2_eq_2)

lemma newlineRe_no_three:
  "\<not> Contains (newlineRe_ReplaceAllString s) [10, 10, 10]"
proof (induction s rule: newlineRe_ReplaceAllString.induct)
  case 1
  show ?case by simp
next
  case (2 c)
  show ?case by simp
next
  case (3 c d s)
  let ?N = newlineRe_ReplaceAllString
  show ?case
  proof (cases "c = 10 \<and> d = 10")
    case True
    let ?t = "dropWhile (\<lambda>x. x = 10) s"
    have ih: "\<not> Contains (?N ?t) [10, 10, 10]" using "3.IH"(1) True by simp
    have t1: "take (Suc 0) (?N ?t) \<noteq> [10]"
      by (simp add: newlineRe_take1 dropWhile_nl_take1)
    then have t2: "take 2 (?N ?t) \<noteq> [10, 10]"
      using take2_take1 [of "?N ?t" 10 10] by auto
    have "\<not> Contains (10 # ?N ?t) [10, 10, 10]"
      using ih t2 by (simp add: Contains_Cons3)
    moreover have "take 2 (10 # ?N ?t) \<noteq> [10, 10]"
      using t1 by (cases "?N ?t") (auto simp: numeral_2_eq_2)
    ultimately show ?thesis
      using True by (simp add: Contains_Cons3)
  next
    case False
    have ih: "\<not> Contains (?N (d # s)) [10, 10, 10]" using "3.IH"(2) False by simp
    have "take (Suc 0) (?N (d # s)) = [d]" by (simp add: newlineRe_take1)
    then have "take 2 (?N (d # s)) = [10, 10] \<Longrightarrow> d = 10"
      using take2_take1 by fastforce
    then show ?thesis
      using False ih by (auto simp: Contains_Cons3)
  qed
qed

lemma dropWhile_nl_no_nl_space:
  "\<not> Contains (10 # s) [10, 32] \<Longrightarrow>
   take (Suc 0) (dropWhile (\<lambda>x. x = 10) s) \<noteq> [32] \<and> \<not> Contains (dropWhile (\<lambda>x. x = 10) s) [10, 32]"
proof (induction s)
  case Nil
  show ?case by simp
next
  case (Cons c s)
  show ?case
  proof (cases "c = 10")
    case True
    then have "\<not> Contains (10 # s) [10, 32]" using Cons.prems by (simp add: Contains_Cons2)
    then show ?thesis using Cons.IH True by simp
  next
    case False
    then show ?thesis using Cons.prems by (auto simp: Contains_Cons2)
  qed
qed

lemma newlineRe_no_nl_space:
  "\<not> Contains s [10, 32] \<Longrightarrow> \<not> Contains (newlineRe_ReplaceAllString s) [10, 32]"
proof (induction s rule: newlineRe_ReplaceAllString.induct)
  case 1
  show ?case by simp
next
  case (2 c)
  show ?case by simp
next
  case (3 c d s)
  let ?N = newlineRe_ReplaceAllString
  show ?case
  proof (cases "c = 10 \<and> d = 10")
    case True
    let ?t = "dropWhile (\<lambda>x. x = 10) s"
    have "\<not> Contains (10 # s) [10, 32]" using "3.prems" True by (simp add: Contains_Cons2)
    then have t: "take (Suc 0) ?t \<noteq> [32]" "\<not> Contains ?t [10, 32]"
      using dropWhile_nl_no_nl_space by blast+
    then have "\<not> Contains (?N ?t) [10, 32]" using "3.IH"(1) True by simp
    then show ?thesis
      using True t(1) by (simp add: Contains_Cons2 newlineRe_take1)
  next
    case False
    have p: "\<not> Contains (d # s) [10, 32]" "\<not> (c = 10 \<and> d = 32)"
      using "3.prems" by (auto simp: Contains_Cons2)
    then have "\<not> Contains (?N (d # s)) [10, 32]" using "3.IH"(2) False by simp
    then show ?thesis
      using False p(2) by (auto simp: Contains_Cons2 newlineRe_take1)
  qed
qed

subsection \<open>Trimming\<close>

lemma TrimSpace_sublist: "\<exists>u v. s = u @ TrimSpace s @ v"
proof -
  let ?s1 = "dropWhile IsSpace s"
  have "s = takeWhile IsSpace s @ ?s1" by simp
  moreover have "rev ?s1 = takeWhile IsSpace (rev ?s1) @ dropWhile IsSpace (rev ?s1)" by simp
  then have "?s1 = rev (dropWhile IsSpace (rev ?s1)) @ rev (takeWhile IsSpace (rev ?s1))"
    by (metis rev_append rev_rev_ident)
  ultimately have "s = takeWhile IsSpace s @ TrimSpace s @ rev (takeWhile IsSpace (rev ?s1))"
    by (simp add: TrimSpace_def TrimRightFunc_def)
  then show ?thesis by blast
qed

lemma TrimSpace_ends:
  "TrimSpace s = [] \<or> \<not> IsSpace (hd (TrimSpace s)) \<and> \<not> IsSpace (last (TrimSpace s))"
proof (cases "TrimSpace s = []")
  case True
  then show ?thesis by simp
next
  case False
  let ?s1 = "dropWhile IsSpace s"
  let ?r = "dropWhile IsSpace (rev ?s1)"
  have t: "TrimSpace s = rev ?r" by (simp add: TrimSpace_def TrimRightFunc_def)
  have r: "?r \<noteq> []" using False t by simp
  then have "\<not> IsSpace (hd ?r)" by (rule hd_dropWhile)
  then have l: "\<not> IsSpace (last (TrimSpace s))" using r by (simp add: t last_rev)
  have s1: "?s1 \<noteq> []" using r by (cases "dropWhile IsSpace s") simp_all
  then have h: "\<not> IsSpace (hd ?s1)" by (rule hd_dropWhile)
  have "rev ?s1 = takeWhile IsSpace (rev ?s1) @ ?r" by simp
  then have "?s1 = rev ?r @ rev (takeWhile IsSpace (rev ?s1))"
    by (metis rev_append rev_rev_ident)
  then have "hd ?s1 = hd (rev ?r)" using r by (metis hd_append2 rev_is_Nil_conv)
  then show ?thesis using h l t by simp
qed

lemma finalText_props:
  "\<not> Contains (finalText b) [10, 10, 10]"
  "finalText b = [] \<or> \<not> IsSpace (hd (finalText b)) \<and> \<not> IsSpace (last (finalText b))"
  "\<not> Contains b [10, 32, 32] \<Longrightarrow> \<not> Contains (finalText b) [10, 32]"
proof -
  let ?m = "newlineRe_ReplaceAllString (Replace_nl_space b)"
  obtain u v where m: "?m = u @ finalText b @ v"
    using TrimSpace_sublist [of ?m] by (auto simp: finalText_def)
  show "\<not> Contains (finalText b) [10, 10, 10]"
    using newlineRe_no_three [of "Replace_nl_space b"] Contains_sublist [OF _ m] by blast
  show "finalText b = [] \<or> \<not> IsSpace (hd (finalText b)) \<and> \<not> IsSpace (last (finalText b))"
    unfolding finalText_def by (rule TrimSpace_ends)
  show "\<not> Contains (finalText b) [10, 32]" if "\<not> Contains b [10, 32, 32]"
    using newlineRe_no_nl_space [OF Replace_nl_space_no_nl_space [OF that]] Contains_sublist [OF _ m]
    by blast
qed

lemma FromHTMLNode_buf:
  "FromHTMLNode tw doc os =
     (case map_sum id buf (traverse tw doc (newContext (case os of [] \<Rightarrow> zeroOptions | x # _ \<Rightarrow> x) 78)) of
        Inl e \<Rightarrow> Inl e | Inr b \<Rightarrow> Inr (finalText b))"
  by (cases "traverse tw doc (newContext (case os of [] \<Rightarrow> zeroOptions | x # _ \<Rightarrow> x) 78)")
     (simp_all add: FromHTMLNode.simps Let_def)

text \<open>
  Claim C6, as the code has it. The text a render returns holds no three newlines in a
  row and neither starts nor ends with white space. \<open>strings.Replace\<close> takes one space
  away after each newline, in one pass: the text returned holds no newline followed by a
  space if the buffer held no newline followed by two spaces.
\<close>

theorem C6_final_text:
  "FromHTMLNode tw doc os = Inr s \<Longrightarrow>
   \<not> Contains s [10, 10, 10]
   \<and> (s = [] \<or> \<not> IsSpace (hd s) \<and> \<not> IsSpace (last s))
   \<and> (\<exists>ctx. traverse tw doc (newContext (case os of [] \<Rightarrow> zeroOptions | x # _ \<Rightarrow> x) 78) = Inr ctx
          \<and> s = finalText (buf ctx)
          \<and> (Contains (buf ctx) [10, 32, 32] \<or> \<not> Contains s [10, 32]))"
proof -
  assume "FromHTMLNode tw doc os = Inr s"
  then obtain ctx where
    t: "traverse tw doc (newContext (case os of [] \<Rightarrow> zeroOptions | x # _ \<Rightarrow> x) 78) = Inr ctx"
    and s: "s = finalText (buf ctx)"
    by (auto simp: FromHTMLNode.simps Let_def andThen_eq_Inr)
  show ?thesis
    using t s finalText_props [of "buf ctx"] by blast
qed

theorem C6_final_text_witness:
  "FromHTMLNode (\<lambda>_ _ _ _. [])
     (Node DocumentNode Atom_Other [] []
        [Node ElementNode Atom_P (ascii ''p'') [] [Node TextNode Atom_Other (ascii '' Hello '') [] []],
         Node ElementNode Atom_Br (ascii ''br'') [] [],
         Node ElementNode Atom_Br (ascii ''br'') [] [],
         Node ElementNode Atom_P (ascii ''p'') [] [Node TextNode Atom_Other (ascii ''world'') [] []]])
     [] = Inr [72, 101, 108, 108, 111, 10, 10, 119, 111, 114, 108, 100]
   \<and> \<not> Contains [72, 101, 108, 108, 111, 10, 10, 119, 111, 114, 108, 100] [10, 10, 10]
   \<and> \<not> IsSpace (hd [72, 101, 108, 108, 111, 10, 10, 119, 111, 114, 108, 100])
   \<and> \<not> IsSpace (last [72, 101, 108, 108, 111, 10, 10, 119, 111, 114, 108, 100])"
proof -
  have e: "FromHTMLNode (\<lambda>_ _ _ _. [])
     (Node DocumentNode Atom_Other [] []
        [Node ElementNode Atom_P (ascii ''p'') [] [Node TextNode Atom_Other (ascii '' Hello '') [] []],
         Node ElementNode Atom_Br (ascii ''br'') [] [],
         Node ElementNode Atom_Br (ascii ''br'') [] [],
         Node ElementNode Atom_P (ascii ''p'') [] [Node TextNode Atom_Other (ascii ''world'') [] []]])
     [] = Inr [72, 101, 108, 108, 111, 10, 10, 119, 111, 114, 108, 100]"
  proof -
    have b: "map_sum id buf (traverse (\<lambda>_ _ _ _. [])
       (Node DocumentNode Atom_Other [] []
          [Node ElementNode Atom_P (ascii ''p'') [] [Node TextNode Atom_Other (ascii '' Hello '') [] []],
           Node ElementNode Atom_Br (ascii ''br'') [] [],
           Node ElementNode Atom_Br (ascii ''br'') [] [],
           Node ElementNode Atom_P (ascii ''p'') [] [Node TextNode Atom_Other (ascii ''world'') [] []]])
       (newContext zeroOptions 78))
       = Inr [10, 10, 72, 101, 108, 108, 111, 10, 10, 119, 111, 114, 108, 100, 10, 10]"
      by (simp add: eval_defs cong: andThen_weak_cong)
    have f: "finalText [10, 10, 72, 101, 108, 108, 111, 10, 10, 119, 111, 114, 108, 100, 10, 10]
             = [72, 101, 108, 108, 111, 10, 10, 119, 111, 114, 108, 100]"
      by (simp add: finalText_def TrimSpace_def TrimRightFunc_def IsSpace_def)
    show ?thesis
      unfolding FromHTMLNode_buf by (simp add: b f)
  qed
  from C6_final_text [OF e]
  have "\<not> Contains [72, 101, 108, 108, 111, 10, 10, 119, 111, 114, 108, 100] [10, 10, 10]
    \<and> ([72, 101, 108, 108, 111, 10, 10, 119, 111, 114, 108, 100] = []
       \<or> \<not> IsSpace (hd [72, 101, 108, 108, 111, 10, 10, 119, 111, 114, 108, 100])
         \<and> \<not> IsSpace (last [72, 101, 108, 108, 111, 10, 10, 119, 111, 114, 108, 100]))"
    by blast
  then show ?thesis
    using e by simp
qed

text \<open>
  Claim C6 as stated fails: inside a table \<open>emit\<close> writes the text of a \<open>pre\<close> to the
  buffer as it is, and of a newline followed by two spaces the pass leaves a newline
  followed by one space. The document is
  \<open><table><tbody><tr><td><pre>x\n  y</pre></td></tr></tbody></table>\<close>, rendered with the
  default options.
\<close>

theorem C6_newline_space_counterexample:
  "FromHTMLNode (\<lambda>_ _ _ _. [])
     (Node ElementNode Atom_Table (ascii ''table'') []
        [Node ElementNode Atom_Other (ascii ''tbody'') []
           [Node ElementNode Atom_Tr (ascii ''tr'') []
              [Node ElementNode Atom_Td (ascii ''td'') []
                 [Node ElementNode Atom_Pre (ascii ''pre'') []
                    [Node TextNode Atom_Other [120, 10, 32, 32, 121] [] []]]]]])
     [] = Inr [120, 10, 32, 121]
   \<and> Contains [120, 10, 32, 121] [10, 32]"
  by (simp add: eval_defs Contains_Cons2 cong: andThen_weak_cong)


end
